theory Spec2Isabelle
  imports Main "HOL-Library.Sublist" "HOL-Library.Multiset"
begin

section \<open>Strings of the program\<close>

text \<open>
  A JavaScript string is modelled as a \<^typ>\<open>string\<close>, a list of characters; every
  character stands for one code unit in the range 0..255.  The string methods the program
  calls are written out below with the meaning ECMAScript gives them.
\<close>

definition startsWith :: "string \<Rightarrow> string \<Rightarrow> bool" where
  \<comment> \<open>\<^verbatim>\<open>s.startsWith(p)\<close>\<close>
  "startsWith s p = (take (length p) s = p)"

definition slice_from :: "string \<Rightarrow> nat \<Rightarrow> string" where
  \<comment> \<open>\<^verbatim>\<open>s.slice(n)\<close> for a literal \<open>n \<ge> 0\<close>\<close>
  "slice_from s n = drop n s"

fun join :: "string \<Rightarrow> string list \<Rightarrow> string" where
  \<comment> \<open>\<^verbatim>\<open>xs.join(sep)\<close> on an array of strings\<close>
  "join sep [] = []"
| "join sep [x] = x"
| "join sep (x # y # ys) = x @ sep @ join sep (y # ys)"

fun split_nl :: "string \<Rightarrow> string list" where
  \<comment> \<open>\<^verbatim>\<open>s.split("\n")\<close>: the empty string gives one empty line\<close>
  "split_nl [] = [[]]"
| "split_nl (c # cs) =
     (if c = CHR 0x0A then [] # split_nl cs
      else (case split_nl cs of [] \<Rightarrow> [[c]] | l # ls \<Rightarrow> (c # l) # ls))"

definition isWhiteSpace :: "char \<Rightarrow> bool" where
  \<comment> \<open>the white space and line terminators that \<^verbatim>\<open>trim\<close> removes, among the code
      units 0..255: TAB, LF, VT, FF, CR, SP, NBSP\<close>
  "isWhiteSpace c = (c \<in> set [CHR 0x09, CHR 0x0A, CHR 0x0B, CHR 0x0C, CHR 0x0D, CHR 0x20, CHR 0xA0])"

definition trim :: "string \<Rightarrow> string" where
  \<comment> \<open>\<^verbatim>\<open>s.trim()\<close>\<close>
  "trim s = rev (dropWhile isWhiteSpace (rev (dropWhile isWhiteSpace s)))"

section \<open>Regular expressions of the program\<close>

text \<open>
  A matcher tells whether its regular expression matches at the head of a string, and how
  many characters the match takes.  \<open>replace_all\<close> is \<^verbatim>\<open>s.replace(/re/g, r)\<close>: it scans
  from the left, replaces the match found at the current position and continues behind it,
  or keeps the current character and moves on by one.  None of the program's expressions
  matches the empty string.
\<close>

fun replace_all :: "(string \<Rightarrow> nat option) \<Rightarrow> string \<Rightarrow> string \<Rightarrow> string" where
  "replace_all m r [] = []"
| "replace_all m r (c # cs) =
     (case m (c # cs) of
        Some n \<Rightarrow> r @ replace_all m r (drop (n - 1) cs)
      | None \<Rightarrow> c # replace_all m r cs)"

fun match_seq :: "string list \<Rightarrow> string \<Rightarrow> bool" where
  \<comment> \<open>a sequence of character classes, each a list of the characters it accepts\<close>
  "match_seq [] s = True"
| "match_seq (k # ks) [] = False"
| "match_seq (k # ks) (c # cs) = (c \<in> set k \<and> match_seq ks cs)"

definition style_open :: "string list" where
  \<comment> \<open>\<^verbatim>\<open><style\<close> under the flag \<^verbatim>\<open>i\<close>\<close>
  "style_open = [''<'', ''sS'', ''tT'', ''yY'', ''lL'', ''eE'']"

definition style_close :: "string list" where
  \<comment> \<open>\<^verbatim>\<open><\/style>\<close> under the flag \<^verbatim>\<open>i\<close>\<close>
  "style_close = [''<'', ''/'', ''sS'', ''tT'', ''yY'', ''lL'', ''eE'', ''>'']"

fun find_close :: "string \<Rightarrow> nat option" where
  \<comment> \<open>the lazy \<^verbatim>\<open>[\s\S]*?\<close>: the number of characters before the first closing tag\<close>
  "find_close [] = None"
| "find_close (c # cs) =
     (if match_seq style_close (c # cs) then Some 0 else map_option Suc (find_close cs))"

definition notGt :: "char \<Rightarrow> bool" where
  \<comment> \<open>the class \<^verbatim>\<open>[^>]\<close>\<close>
  "notGt c = (c \<noteq> CHR ''>'')"

definition re_style :: "string \<Rightarrow> nat option" where
  \<comment> \<open>\<^verbatim>\<open>/<style[^>]*>[\s\S]*?<\/style>/gi\<close>\<close>
  "re_style s =
     (if match_seq style_open s then
        (case dropWhile notGt (drop 6 s) of
           [] \<Rightarrow> None
         | g # t \<Rightarrow>
             (case find_close t of
                None \<Rightarrow> None
              | Some k \<Rightarrow> Some (6 + length (takeWhile notGt (drop 6 s)) + 1 + k + 8)))
      else None)"

definition re_div :: "string \<Rightarrow> nat option" where
  \<comment> \<open>\<^verbatim>\<open>/<div[^>]*>/g\<close>\<close>
  "re_div s =
     (if startsWith s ''<div'' then
        (case dropWhile notGt (drop 4 s) of
           [] \<Rightarrow> None
         | g # t \<Rightarrow> Some (4 + length (takeWhile notGt (drop 4 s)) + 1))
      else None)"

definition re_tag :: "string \<Rightarrow> nat option" where
  \<comment> \<open>\<^verbatim>\<open>/<[^>]+>/g\<close>\<close>
  "re_tag s =
     (if startsWith s ''<'' then
        (case dropWhile notGt (drop 1 s) of
           [] \<Rightarrow> None
         | g # t \<Rightarrow>
             (if takeWhile notGt (drop 1 s) = [] then None
              else Some (1 + length (takeWhile notGt (drop 1 s)) + 1)))
      else None)"

definition re_anki_play :: "string \<Rightarrow> nat option" where
  \<comment> \<open>\<^verbatim>\<open>/\[anki:play:[^\]]+\]/g\<close>\<close>
  "re_anki_play s =
     (if startsWith s ''[anki:play:'' then
        (case dropWhile (\<lambda>c. c \<noteq> CHR '']'') (drop 11 s) of
           [] \<Rightarrow> None
         | g # t \<Rightarrow>
             (if takeWhile (\<lambda>c. c \<noteq> CHR '']'') (drop 11 s) = [] then None
              else Some (11 + length (takeWhile (\<lambda>c. c \<noteq> CHR '']'') (drop 11 s)) + 1)))
      else None)"

definition re_lit :: "string \<Rightarrow> string \<Rightarrow> nat option" where
  \<comment> \<open>a literal such as \<^verbatim>\<open>/&amp;/g\<close>\<close>
  "re_lit p s = (if startsWith s p then Some (length p) else None)"

section \<open>Text normalizer and query formatter\<close>

definition strip_markup :: "string \<Rightarrow> string" where
  \<comment> \<open>the first four replacements of \<^verbatim>\<open>cleanWithRegex\<close>\<close>
  "strip_markup htmlString =
     replace_all re_anki_play []
       (replace_all re_tag '' ''
         (replace_all re_div [CHR 0x0A]
           (replace_all re_style [] htmlString)))"

definition decode_entities :: "string \<Rightarrow> string" where
  \<comment> \<open>the five entity replacements of \<^verbatim>\<open>cleanWithRegex\<close>, in the source's order\<close>
  "decode_entities s =
     replace_all (re_lit ''&quot;'') [CHR 0x22]
       (replace_all (re_lit ''&gt;'') ''>''
         (replace_all (re_lit ''&lt;'') ''<''
           (replace_all (re_lit ''&amp;'') ''&''
             (replace_all (re_lit ''&nbsp;'') '' '' s))))"

definition clean_lines :: "string \<Rightarrow> string" where
  \<comment> \<open>split at newlines, trim every line, drop the empty ones, join again\<close>
  "clean_lines s =
     join [CHR 0x0A] (filter (\<lambda>line. length line > 0) (map trim (split_nl s)))"

definition cleanWithRegex :: "string \<Rightarrow> string" where
  "cleanWithRegex htmlString = clean_lines (decode_entities (strip_markup htmlString))"

definition formatQuery :: "string \<Rightarrow> string" where
  "formatQuery query =
     (if startsWith query ''deck'' then ''deck:'' @ slice_from query 4
      else if startsWith query ''is'' then ''is:'' @ slice_from query 2
      else query)"

section \<open>Clean text\<close>

fun has_match :: "(string \<Rightarrow> nat option) \<Rightarrow> string \<Rightarrow> bool" where
  \<comment> \<open>the regular expression matches somewhere in the string\<close>
  "has_match m [] = False"
| "has_match m (c # cs) = (m (c # cs) \<noteq> None \<or> has_match m cs)"

definition markup_free :: "string \<Rightarrow> bool" where
  \<comment> \<open>none of the nine regular expressions of \<^verbatim>\<open>cleanWithRegex\<close> matches in the string\<close>
  "markup_free s =
     (\<not> has_match re_style s \<and> \<not> has_match re_div s \<and> \<not> has_match re_tag s \<and>
      \<not> has_match re_anki_play s \<and>
      \<not> has_match (re_lit ''&nbsp;'') s \<and> \<not> has_match (re_lit ''&amp;'') s \<and>
      \<not> has_match (re_lit ''&lt;'') s \<and> \<not> has_match (re_lit ''&gt;'') s \<and>
      \<not> has_match (re_lit ''&quot;'') s)"

section \<open>Marked-up text built from tags, style blocks and entities\<close>

text \<open>
  An input "built only from tags, style blocks and entities" is the concatenation of
  constructs:
  \<^item> a tag \<^verbatim>\<open><body>\<close> whose body is not empty and has no angle bracket;
  \<^item> a style block: the six characters \<^verbatim>\<open><style\<close> in any letter case, attributes, \<^verbatim>\<open>>\<close>, a
    style sheet, and the eight characters \<^verbatim>\<open></style>\<close> in any letter case, where no closing
    tag \<^verbatim>\<open></style>\<close> (in any letter case) occurs before the final one;
  \<^item> one of the five entities.
\<close>

datatype entity = Nbsp | Amp | Lt | Gt | Quot

fun entity_text :: "entity \<Rightarrow> string" where
  "entity_text Nbsp = ''&nbsp;''"
| "entity_text Amp = ''&amp;''"
| "entity_text Lt = ''&lt;''"
| "entity_text Gt = ''&gt;''"
| "entity_text Quot = ''&quot;''"

fun decoded :: "entity \<Rightarrow> char" where
  \<comment> \<open>the character \<^verbatim>\<open>cleanWithRegex\<close> puts for the entity\<close>
  "decoded Nbsp = CHR '' ''"
| "decoded Amp = CHR ''&''"
| "decoded Lt = CHR ''<''"
| "decoded Gt = CHR ''>''"
| "decoded Quot = CHR 0x22"

datatype construct = Tag string | StyleBlock string string string string | Entity entity

fun render :: "construct \<Rightarrow> string" where
  "render (Tag body) = ''<'' @ body @ ''>''"
| "render (StyleBlock opening attrs css closing) = opening @ attrs @ ''>'' @ css @ closing"
| "render (Entity e) = entity_text e"

fun well_formed :: "construct \<Rightarrow> bool" where
  "well_formed (Tag body) =
     (body \<noteq> [] \<and> CHR ''<'' \<notin> set body \<and> CHR ''>'' \<notin> set body)"
| "well_formed (StyleBlock opening attrs css closing) =
     (length opening = 6 \<and> match_seq style_open opening \<and>
      length closing = 8 \<and> match_seq style_close closing \<and>
      find_close (attrs @ ''>'' @ css) = None)"
| "well_formed (Entity e) = True"

definition markup :: "construct list \<Rightarrow> string" where
  "markup cs = concat (map render cs)"

definition ents :: "construct list \<Rightarrow> entity set" where
  \<comment> \<open>the entities that occur in a list of constructs\<close>
  "ents cs = {e. Entity e \<in> set cs}"

definition TAGS :: "string set" where
  "TAGS = {CHR ''<'' # b @ ''>'' | b. b \<noteq> [] \<and> CHR ''<'' \<notin> set b \<and> CHR ''>'' \<notin> set b}"

definition ENTS :: "entity set \<Rightarrow> string set" where
  "ENTS E = entity_text ` E"

definition CHS :: "char set \<Rightarrow> string set" where
  "CHS A = (\<lambda>c. [c]) ` A"

definition SAFE :: "char set" where
  \<comment> \<open>the characters the replacements put into the text\<close>
  "SAFE = {CHR 0x0A, CHR '' '', CHR ''&'', CHR ''<'', CHR ''>'', CHR 0x22}"

section \<open>Numbers\<close>

text \<open>
  A JavaScript number is modelled with its three special values and the integers; the
  identifiers, the \<open>due\<close> keys and the \<open>num\<close> argument of the program are integers.
\<close>

datatype jsnumber = NaN | Infinity | NegInfinity | Finite int

fun Number :: "jsnumber option \<Rightarrow> jsnumber" where
  \<comment> \<open>\<^verbatim>\<open>Number(v)\<close> where \<open>v\<close> is a number, or \<^verbatim>\<open>undefined\<close> (the field is absent)\<close>
  "Number None = NaN"
| "Number (Some n) = n"

fun slice0 :: "'a list \<Rightarrow> jsnumber \<Rightarrow> 'a list" where
  \<comment> \<open>\<^verbatim>\<open>xs.slice(0, end)\<close>: \<open>end\<close> goes through ToIntegerOrInfinity (NaN is 0); a negative
      end counts from the end of the array; the result is clamped to the array\<close>
  "slice0 xs NaN = take 0 xs"
| "slice0 xs Infinity = take (length xs) xs"
| "slice0 xs NegInfinity = take 0 xs"
| "slice0 xs (Finite n) =
     (if n < 0 then take (nat (max (int (length xs) + n) 0)) xs
      else take (nat (min n (int (length xs)))) xs)"

definition digit :: "nat \<Rightarrow> char" where
  "digit d = ''0123456789abcdef'' ! d"

function show_nat :: "nat \<Rightarrow> string" where
  "show_nat n = (if n < 10 then [digit n] else show_nat (n div 10) @ [digit (n mod 10)])"
  by pat_completeness auto
termination
  by (relation "measure id") auto

declare show_nat.simps [simp del]

definition toString :: "int \<Rightarrow> string" where
  \<comment> \<open>the decimal form JavaScript gives an integer below \<open>10^21\<close> in a template literal
      or in \<^verbatim>\<open>join\<close>\<close>
  "toString n = (if n < 0 then ''-'' @ show_nat (nat (- n)) else show_nat (nat n))"

fun toString_opt :: "int option \<Rightarrow> string" where
  \<comment> \<open>a template literal prints \<^verbatim>\<open>undefined\<close> for a missing value\<close>
  "toString_opt None = ''undefined''"
| "toString_opt (Some n) = toString n"

fun String :: "string option \<Rightarrow> string" where
  \<comment> \<open>\<^verbatim>\<open>String(v)\<close> where \<open>v\<close> is a string, or \<^verbatim>\<open>undefined\<close>\<close>
  "String None = ''undefined''"
| "String (Some s) = s"

section \<open>Data model\<close>

text \<open>
  The arguments of a tool call are an object whose fields may be absent.  A field that is
  present is modelled with the type the tool's input schema declares for it; an absent
  field is \<open>None\<close>, the \<^verbatim>\<open>undefined\<close> of the program.  A card record of the store has more
  fields than the four the program reads; only these are modelled.
\<close>

record Answer =
  cardId :: int
  ease :: int

record Card =
  cardId :: int
  question :: string
  answer :: string
  due :: int

record Note =
  deckName :: string
  note_fields :: "(string \<times> string) list"
  modelName :: string

record Arguments =
  answers :: "Answer list option"
  front :: "string option"
  "back" :: "string option"
  num :: "jsnumber option"

record CallToolRequest =
  name :: string
  arguments :: "Arguments option"

datatype error = Error string | TypeError string

datatype content = TextContent string

section \<open>JSON text of a card list\<close>

definition json_escape :: "char \<Rightarrow> string" where
  \<comment> \<open>QuoteJSONString, one code unit\<close>
  "json_escape c =
     (if c = CHR 0x08 then [CHR 0x5C, CHR ''b'']
      else if c = CHR 0x09 then [CHR 0x5C, CHR ''t'']
      else if c = CHR 0x0A then [CHR 0x5C, CHR ''n'']
      else if c = CHR 0x0C then [CHR 0x5C, CHR ''f'']
      else if c = CHR 0x0D then [CHR 0x5C, CHR ''r'']
      else if c = CHR 0x22 then [CHR 0x5C, CHR 0x22]
      else if c = CHR 0x5C then [CHR 0x5C, CHR 0x5C]
      else if (of_char c :: nat) < 32 then
        [CHR 0x5C, CHR ''u'', CHR ''0'', CHR ''0'', digit (of_char c div 16), digit (of_char c mod 16)]
      else [c])"

definition json_string :: "string \<Rightarrow> string" where
  "json_string s = [CHR 0x22] @ concat (map json_escape s) @ [CHR 0x22]"

definition json_card :: "Card \<Rightarrow> string" where
  "json_card c =
     ''{'' @ json_string ''cardId'' @ '':'' @ toString (Card.cardId c) @ '','' @
     json_string ''question'' @ '':'' @ json_string (question c) @ '','' @
     json_string ''answer'' @ '':'' @ json_string (answer c) @ '','' @
     json_string ''due'' @ '':'' @ toString (due c) @ ''}''"

definition JSON_stringify :: "Card list \<Rightarrow> string" where
  \<comment> \<open>\<^verbatim>\<open>JSON.stringify(cards)\<close>\<close>
  "JSON_stringify cards = ''['' @ join '','' (map json_card cards) @ '']''"

section \<open>The store client and the handlers\<close>

text \<open>
  A handler is an asynchronous function: it runs up to a call of the store client, awaits
  the answer and goes on with it.  A handler is therefore a tree: a leaf returns or throws,
  an inner node is one call of the store client with the handler's continuation.
\<close>

datatype 'a io =
    Return 'a
  | Throw error
  | FindCards string "int list \<Rightarrow> 'a io"
  | CardsInfo "int list" "Card list \<Rightarrow> 'a io"
  | AnswerCards "Answer list option" "bool list \<Rightarrow> 'a io"
  | AddNote Note "int \<Rightarrow> 'a io"

primrec bind :: "'a io \<Rightarrow> ('a \<Rightarrow> 'b io) \<Rightarrow> 'b io" where
  "bind (Return x) f = f x"
| "bind (Throw e) f = Throw e"
| "bind (FindCards q k) f = FindCards q (\<lambda>r. bind (k r) f)"
| "bind (CardsInfo ids k) f = CardsInfo ids (\<lambda>r. bind (k r) f)"
| "bind (AnswerCards as k) f = AnswerCards as (\<lambda>r. bind (k r) f)"
| "bind (AddNote n k) f = AddNote n (\<lambda>r. bind (k r) f)"

text \<open>
  The store client is outside the program.  A client is four operations on a store of any
  type \<open>'w\<close>; each may fail.  \<open>run\<close> executes a handler against a client: a failure of the
  client is thrown at the \<^verbatim>\<open>await\<close>, and the handlers modelled here catch nothing.
\<close>

record 'w client =
  findCards :: "string \<Rightarrow> 'w \<Rightarrow> (error + int list) \<times> 'w"
  cardsInfo :: "int list \<Rightarrow> 'w \<Rightarrow> (error + Card list) \<times> 'w"
  answerCards :: "Answer list option \<Rightarrow> 'w \<Rightarrow> (error + bool list) \<times> 'w"
  addNote :: "Note \<Rightarrow> 'w \<Rightarrow> (error + int) \<times> 'w"

primrec run :: "'w client \<Rightarrow> 'a io \<Rightarrow> 'w \<Rightarrow> (error + 'a) \<times> 'w" where
  "run cl (Return x) w = (Inr x, w)"
| "run cl (Throw e) w = (Inl e, w)"
| "run cl (FindCards q k) w =
     (case findCards cl q w of (Inl e, w') \<Rightarrow> (Inl e, w') | (Inr r, w') \<Rightarrow> run cl (k r) w')"
| "run cl (CardsInfo ids k) w =
     (case cardsInfo cl ids w of (Inl e, w') \<Rightarrow> (Inl e, w') | (Inr r, w') \<Rightarrow> run cl (k r) w')"
| "run cl (AnswerCards as k) w =
     (case answerCards cl as w of (Inl e, w') \<Rightarrow> (Inl e, w') | (Inr r, w') \<Rightarrow> run cl (k r) w')"
| "run cl (AddNote n k) w =
     (case addNote cl n w of (Inl e, w') \<Rightarrow> (Inl e, w') | (Inr r, w') \<Rightarrow> run cl (k r) w')"

primrec calls :: "'a io \<Rightarrow> bool" where
  \<comment> \<open>does the handler start with a call of the store client?\<close>
  "calls (Return x) = False"
| "calls (Throw e) = False"
| "calls (FindCards q k) = True"
| "calls (CardsInfo ids k) = True"
| "calls (AnswerCards as k) = True"
| "calls (AddNote n k) = True"

definition ListResources :: "(string \<times> string) list list" where
  \<comment> \<open>the \<^verbatim>\<open>resources\<close> array; an object literal is the list of its keys and values\<close>
  "ListResources =
     [[(''uri'', ''anki://search/deckcurrent''),
       (''mimeType'', ''application/json''),
       (''name'', ''Current Deck''),
       (''description'', ''Current Anki deck'')],
      [(''uri'', ''anki://search/isdue''),
       (''mimeType'', ''application/json''),
       (''name'', ''Due cards''),
       (''description'', ''Cards in review and learning waiting to be studied'')],
      [(''uri'', ''anki://search/isnew''),
       (''mimiType'', ''application/json''),
       (''name'', ''New cards''),
       (''description'', ''All unseen cards'')]]"

definition project :: "Card \<Rightarrow> Card" where
  \<comment> \<open>the object built by the \<^verbatim>\<open>map\<close> callback of \<^verbatim>\<open>findCardsAndOrder\<close>\<close>
  "project c =
     \<lparr>Card.cardId = Card.cardId c,
      question = cleanWithRegex (question c),
      answer = cleanWithRegex (answer c),
      due = due c\<rparr>"

definition findCardsAndOrder :: "string \<Rightarrow> Card list io" where
  \<comment> \<open>\<^verbatim>\<open>sort((a, b) => a.due - b.due)\<close> is a stable sort by the key \<open>due\<close>\<close>
  "findCardsAndOrder query =
     FindCards (formatQuery query) (\<lambda>cardIds.
       CardsInfo cardIds (\<lambda>infos.
         Return (sort_key due (map project infos))))"

definition truthy_at :: "bool list \<Rightarrow> nat \<Rightarrow> bool" where
  \<comment> \<open>\<^verbatim>\<open>result[index]\<close> as a condition: beyond the end it is \<^verbatim>\<open>undefined\<close>, which is falsy\<close>
  "truthy_at result index = (index < length result \<and> result ! index)"

definition filter_index :: "(nat \<Rightarrow> bool) \<Rightarrow> 'a list \<Rightarrow> 'a list" where
  \<comment> \<open>\<^verbatim>\<open>xs.filter((_, index) => p(index))\<close>\<close>
  "filter_index p xs = map fst (filter (\<lambda>(x, index). p index) (zip xs [0..<length xs]))"

definition text_result :: "string \<Rightarrow> content list" where
  \<comment> \<open>\<^verbatim>\<open>{ content: [{ type: "text", text: t }] }\<close>\<close>
  "text_result t = [TextContent t]"

definition update_cards :: "Arguments \<Rightarrow> content list io" where
  "update_cards args =
     AnswerCards (answers args) (\<lambda>result.
       (case answers args of
          None \<Rightarrow> Throw (TypeError ''Cannot read properties of undefined (reading 'filter')'')
        | Some answers' \<Rightarrow>
            (let successfulCards = map Answer.cardId (filter_index (\<lambda>index. truthy_at result index) answers');
                 failedCards = filter_index (\<lambda>index. \<not> truthy_at result index) answers'
             in if length failedCards > 0 then
                  (let failedCardIds = map Answer.cardId failedCards
                   in Throw (Error (''Failed to update cards with IDs: '' @
                                    join '', '' (map toString failedCardIds))))
                else Return (text_result (''Updated cards '' @
                                          join '', '' (map toString successfulCards))))))"

definition first_opt :: "'a list \<Rightarrow> 'a option" where
  \<comment> \<open>\<^verbatim>\<open>xs[0]\<close>: \<^verbatim>\<open>undefined\<close> on the empty array\<close>
  "first_opt xs = (case xs of [] \<Rightarrow> None | x # _ \<Rightarrow> Some x)"

definition add_card :: "Arguments \<Rightarrow> content list io" where
  "add_card args =
     (let front' = String (front args);
          back' = String (back args);
          note = \<lparr>deckName = ''Default'',
                  note_fields = [(''Back'', back'), (''Front'', front')],
                  modelName = ''Basic''\<rparr>
      in AddNote note (\<lambda>noteId.
           FindCards (''nid:'' @ toString noteId) (\<lambda>found.
             (let cardId' = first_opt found
              in Return (text_result (''Created card with id '' @ toString_opt cardId'))))))"

definition get_cards :: "string \<Rightarrow> Arguments \<Rightarrow> content list io" where
  \<comment> \<open>the body shared by the cases \<^verbatim>\<open>get_due_cards\<close> and \<^verbatim>\<open>get_new_cards\<close>, which differ
      in the query only\<close>
  "get_cards query args =
     (let num' = Number (num args)
      in bind (findCardsAndOrder query) (\<lambda>cards.
           Return (text_result (JSON_stringify (slice0 cards num')))))"

definition CallTool :: "CallToolRequest \<Rightarrow> content list io" where
  "CallTool request =
     (case arguments request of
        None \<Rightarrow> Throw (Error (''No arguments provided for tool: '' @ name request))
      | Some args \<Rightarrow>
          if name request = ''update_cards'' then update_cards args
          else if name request = ''add_card'' then add_card args
          else if name request = ''get_due_cards'' then get_cards ''is:due'' args
          else if name request = ''get_new_cards'' then get_cards ''is:new'' args
          else Throw (Error ''Unknown tool''))"

section \<open>A test double of the store client\<close>

text \<open>
  The stub answers every call with a fixed value and records the calls it receives; its
  store is the list of the calls made so far.
\<close>

datatype call =
    FindCardsCall string
  | CardsInfoCall "int list"
  | AnswerCardsCall "Answer list option"
  | AddNoteCall Note

definition stub_client :: "int list \<Rightarrow> Card list \<Rightarrow> bool list \<Rightarrow> int \<Rightarrow> call list client" where
  "stub_client ids infos oks nid =
     \<lparr>findCards = (\<lambda>q w. (Inr ids, w @ [FindCardsCall q])),
      cardsInfo = (\<lambda>i w. (Inr infos, w @ [CardsInfoCall i])),
      answerCards = (\<lambda>a w. (Inr oks, w @ [AnswerCardsCall a])),
      addNote = (\<lambda>n w. (Inr nid, w @ [AddNoteCall n]))\<rparr>"

definition sample_infos :: "Card list" where
  \<comment> \<open>three records as the store holds them, with markup; two of them are due on the same day\<close>
  "sample_infos =
     [\<lparr>Card.cardId = 11, question = ''<b>Q1</b>'', answer = ''A1'', due = 5\<rparr>,
      \<lparr>Card.cardId = 12, question = ''Q2'', answer = ''A2&amp;B'', due = 3\<rparr>,
      \<lparr>Card.cardId = 13, question = ''<div>Q3</div>'', answer = ''A3'', due = 5\<rparr>]"

lemmas eval_defs =
  stub_client_def CallTool_def get_cards_def findCardsAndOrder_def update_cards_def
  add_card_def text_result_def first_opt_def filter_index_def truthy_at_def
  sample_infos_def project_def formatQuery_def startsWith_def slice_from_def
  JSON_stringify_def json_card_def json_string_def json_escape_def
  toString_def show_nat.simps digit_def
  cleanWithRegex_def clean_lines_def decode_entities_def strip_markup_def
  re_anki_play_def re_tag_def re_div_def re_style_def re_lit_def
  trim_def isWhiteSpace_def notGt_def style_open_def style_close_def

section \<open>Query formatter\<close>

lemma startsWith_prefix: "startsWith s p = prefix p s"
  by (auto simp: startsWith_def prefix_def) (metis append_take_drop_id)

text \<open>
  Claim C7.  A keyword that starts with \<^verbatim>\<open>deck\<close> becomes \<^verbatim>\<open>deck:\<close> followed by everything
  after its first four characters; otherwise a keyword that starts with \<^verbatim>\<open>is\<close> becomes
  \<^verbatim>\<open>is:\<close> followed by everything after its first two characters; any other keyword is
  returned unchanged.  In particular \<^verbatim>\<open>deckMath\<close> gives \<^verbatim>\<open>deck:Math\<close>, \<^verbatim>\<open>isdue\<close> gives
  \<^verbatim>\<open>is:due\<close> and \<^verbatim>\<open>tag:x\<close> stays as it is.
\<close>

theorem formatQuery_spec:
  "(prefix ''deck'' q \<longrightarrow> formatQuery q = ''deck:'' @ drop 4 q) \<and>
   (\<not> prefix ''deck'' q \<and> prefix ''is'' q \<longrightarrow> formatQuery q = ''is:'' @ drop 2 q) \<and>
   (\<not> prefix ''deck'' q \<and> \<not> prefix ''is'' q \<longrightarrow> formatQuery q = q) \<and>
   formatQuery ''deckMath'' = ''deck:Math'' \<and>
   formatQuery ''isdue'' = ''is:due'' \<and>
   formatQuery ''tag:x'' = ''tag:x''"
  by (simp add: formatQuery_def startsWith_prefix slice_from_def)

theorem formatQuery_spec_witness:
  "prefix ''deck'' ''deck'' \<and> formatQuery ''deck'' = ''deck:'' \<and>
   \<not> prefix ''deck'' ''isnew'' \<and> prefix ''is'' ''isnew'' \<and> formatQuery ''isnew'' = ''is:new'' \<and>
   \<not> prefix ''deck'' ''nid:7'' \<and> \<not> prefix ''is'' ''nid:7'' \<and> formatQuery ''nid:7'' = ''nid:7''"
  using formatQuery_spec [of "''deck''"] formatQuery_spec [of "''isnew''"]
    formatQuery_spec [of "''nid:7''"]
  by simp

section \<open>Resource catalog\<close>

text \<open>
  Claim C4.  The catalog has exactly three resources with the URIs
  \<^verbatim>\<open>anki://search/deckcurrent\<close>, \<^verbatim>\<open>anki://search/isdue\<close> and \<^verbatim>\<open>anki://search/isnew\<close>, and
  each should carry the key \<^verbatim>\<open>mimeType\<close> with the value \<^verbatim>\<open>application/json\<close>.  The source
  spells the key of the third resource \<^verbatim>\<open>mimiType\<close>: the first two resources declare a
  content type, the third one has no \<^verbatim>\<open>mimeType\<close> at all.
\<close>

theorem ListResources_third_lacks_mimeType:
  "length ListResources = 3 \<and>
   map (\<lambda>r. map_of r ''uri'') ListResources =
     [Some ''anki://search/deckcurrent'', Some ''anki://search/isdue'',
      Some ''anki://search/isnew''] \<and>
   map (\<lambda>r. map_of r ''mimeType'') ListResources =
     [Some ''application/json'', Some ''application/json'', None] \<and>
   map_of (ListResources ! 2) ''mimiType'' = Some ''application/json''"
  by (simp add: ListResources_def)

section \<open>Tool dispatch\<close>

text \<open>
  Claim C8.  A request without arguments throws the error
  \<^verbatim>\<open>No arguments provided for tool: <name>\<close> (the invalid-request failure of the
  specification) and the handler is a leaf: it makes no call of the store client, so the
  store is left as it was under every client.  A request with arguments whose name is none
  of the four tools throws the error \<^verbatim>\<open>Unknown tool\<close>.
\<close>

theorem CallTool_rejects:
  "CallTool \<lparr>name = n, arguments = None\<rparr> =
     Throw (Error (''No arguments provided for tool: '' @ n)) \<and>
   \<not> calls (CallTool \<lparr>name = n, arguments = None\<rparr>) \<and>
   run cl (CallTool \<lparr>name = n, arguments = None\<rparr>) w =
     (Inl (Error (''No arguments provided for tool: '' @ n)), w) \<and>
   (n \<notin> {''update_cards'', ''add_card'', ''get_due_cards'', ''get_new_cards''} \<longrightarrow>
      CallTool \<lparr>name = n, arguments = Some args\<rparr> = Throw (Error ''Unknown tool'') \<and>
      run cl (CallTool \<lparr>name = n, arguments = Some args\<rparr>) w = (Inl (Error ''Unknown tool''), w))"
  by (simp add: CallTool_def)

theorem CallTool_rejects_witness:
  "''list_decks'' \<notin> {''update_cards'', ''add_card'', ''get_due_cards'', ''get_new_cards''} \<and>
   run (stub_client [1] sample_infos [True] 7)
     (CallTool \<lparr>name = ''list_decks'',
                arguments = Some \<lparr>answers = None, front = None, back = None, num = None\<rparr>\<rparr>) [] =
     (Inl (Error ''Unknown tool''), []) \<and>
   run (stub_client [1] sample_infos [True] 7)
     (CallTool \<lparr>name = ''add_card'', arguments = None\<rparr>) [] =
     (Inl (Error ''No arguments provided for tool: add_card''), [])"
  using CallTool_rejects [of "''list_decks''" "stub_client [1] sample_infos [True] 7" "[]"
      "\<lparr>answers = None, front = None, back = None, num = None\<rparr>"]
    CallTool_rejects [of "''add_card''" "stub_client [1] sample_infos [True] 7" "[]"]
  by simp

text \<open>
  Claim C9.  For every pair of strings \<open>f\<close>, \<open>b\<close> given as \<^verbatim>\<open>front\<close> and \<^verbatim>\<open>back\<close>, the tool
  \<^verbatim>\<open>add_card\<close> makes one call that adds a note to the deck \<^verbatim>\<open>Default\<close> with the note type
  \<^verbatim>\<open>Basic\<close> and the fields \<^verbatim>\<open>Front\<close> = \<open>f\<close>, \<^verbatim>\<open>Back\<close> = \<open>b\<close> unchanged, then one call that
  finds the cards of the query \<^verbatim>\<open>nid:<note id>\<close>, and returns the text
  \<^verbatim>\<open>Created card with id\<close> followed by the first card found; when no card is found the text
  names \<^verbatim>\<open>undefined\<close> and no error is thrown.
\<close>

theorem add_card_spec:
  "CallTool \<lparr>name = ''add_card'',
             arguments = Some \<lparr>answers = a, front = Some f, back = Some b, num = n\<rparr>\<rparr> =
     AddNote \<lparr>deckName = ''Default'', note_fields = [(''Back'', b), (''Front'', f)],
              modelName = ''Basic''\<rparr>
       (\<lambda>noteId. FindCards (''nid:'' @ toString noteId)
          (\<lambda>found. Return [TextContent (''Created card with id '' @
             (case found of [] \<Rightarrow> ''undefined'' | c # rest \<Rightarrow> toString c))]))"
  by (simp add: CallTool_def add_card_def text_result_def first_opt_def fun_eq_iff
      split: list.splits)

theorem add_card_spec_witness:
  "run (stub_client [77, 78] [] [] 42)
     (CallTool \<lparr>name = ''add_card'',
                arguments = Some \<lparr>answers = None, front = Some ''<b>Q</b>'',
                                  back = Some ''A &amp; B'', num = None\<rparr>\<rparr>) [] =
     (Inr [TextContent ''Created card with id 77''],
      [AddNoteCall \<lparr>deckName = ''Default'',
                     note_fields = [(''Back'', ''A &amp; B''), (''Front'', ''<b>Q</b>'')],
                     modelName = ''Basic''\<rparr>,
       FindCardsCall ''nid:42'']) \<and>
   fst (run (stub_client [] [] [] 42)
     (CallTool \<lparr>name = ''add_card'',
                arguments = Some \<lparr>answers = None, front = Some ''Q'', back = Some ''A'',
                                  num = None\<rparr>\<rparr>) []) =
     Inr [TextContent ''Created card with id undefined'']"
  using add_card_spec [of None "''<b>Q</b>''" "''A &amp; B''" None]
    add_card_spec [of None "''Q''" "''A''" None]
  by (simp add: stub_client_def toString_def show_nat.simps digit_def)

section \<open>Card retriever\<close>

text \<open>
  Claim C6.  For every keyword, when the store answers the two calls, the retriever returns
  the store's records, each projected to its identifier, its normalized question, its
  normalized answer and its \<open>due\<close> key, sorted ascending by \<open>due\<close>; the sort is stable, so
  the cards of any one \<open>due\<close> value keep the order the store gave them; no identifiers (and
  so no records) give the empty list.
\<close>

theorem findCardsAndOrder_spec:
  assumes "findCards cl (formatQuery q) w = (Inr ids, w1)"
    and "cardsInfo cl ids w1 = (Inr infos, w2)"
  shows "let r = sort_key due (map project infos) in
     run cl (findCardsAndOrder q) w = (Inr r, w2) \<and>
     sorted (map due r) \<and>
     mset r = mset (map project infos) \<and>
     (\<forall>d. filter (\<lambda>c. due c = d) r = filter (\<lambda>c. due c = d) (map project infos)) \<and>
     (ids = [] \<and> length infos = length ids \<longrightarrow> r = [])"
  using assms by (auto simp add: findCardsAndOrder_def Let_def sort_key_stable)

theorem findCardsAndOrder_spec_witness:
  "run (stub_client [11, 12, 13] sample_infos [] 0) (findCardsAndOrder ''isdue'') [] =
     (Inr [\<lparr>Card.cardId = 12, question = ''Q2'', answer = ''A2&B'', due = 3\<rparr>,
           \<lparr>Card.cardId = 11, question = ''Q1'', answer = ''A1'', due = 5\<rparr>,
           \<lparr>Card.cardId = 13, question = ''Q3'', answer = ''A3'', due = 5\<rparr>],
      [FindCardsCall ''is:due'', CardsInfoCall [11, 12, 13]]) \<and>
   run (stub_client [] [] [] 0) (findCardsAndOrder ''decknone'') [] =
     (Inr [], [FindCardsCall ''deck:none'', CardsInfoCall []])"
proof -
  let ?cl = "stub_client [11, 12, 13] sample_infos [] 0"
  let ?none = "stub_client [] [] [] 0"
  have f: "findCards ?cl (formatQuery ''isdue'') [] = (Inr [11, 12, 13], [FindCardsCall ''is:due''])"
    by (simp add: stub_client_def formatQuery_def startsWith_def slice_from_def)
  have c: "cardsInfo ?cl [11, 12, 13] [FindCardsCall ''is:due''] =
      (Inr sample_infos, [FindCardsCall ''is:due'', CardsInfoCall [11, 12, 13]])"
    by (simp add: stub_client_def)
  have f0: "findCards ?none (formatQuery ''decknone'') [] = (Inr [], [FindCardsCall ''deck:none''])"
    by (simp add: stub_client_def formatQuery_def startsWith_def slice_from_def)
  have c0: "cardsInfo ?none [] [FindCardsCall ''deck:none''] =
      (Inr [], [FindCardsCall ''deck:none'', CardsInfoCall []])"
    by (simp add: stub_client_def)
  have s: "sort_key due (map project sample_infos) =
      [\<lparr>Card.cardId = 12, question = ''Q2'', answer = ''A2&B'', due = 3\<rparr>,
       \<lparr>Card.cardId = 11, question = ''Q1'', answer = ''A1'', due = 5\<rparr>,
       \<lparr>Card.cardId = 13, question = ''Q3'', answer = ''A3'', due = 5\<rparr>]"
    by (simp add: eval_defs)
  show ?thesis
    using findCardsAndOrder_spec [OF f c] findCardsAndOrder_spec [OF f0 c0]
    by (simp add: Let_def s)
qed

section \<open>Reading cards through the tools\<close>

text \<open>
  Both tools hand \<^verbatim>\<open>findCardsAndOrder\<close> a keyword that already has its colon, and
  \<^verbatim>\<open>formatQuery\<close> puts a second one: the store is asked for \<^verbatim>\<open>is::due\<close> and \<^verbatim>\<open>is::new\<close>,
  as the recorded calls below show.
\<close>

lemma get_cards_tree:
  "get_cards query args =
     FindCards (formatQuery query) (\<lambda>cardIds.
       CardsInfo cardIds (\<lambda>infos.
         Return [TextContent (JSON_stringify
           (slice0 (sort_key due (map project infos)) (Number (num args))))]))"
  by (simp add: get_cards_def findCardsAndOrder_def text_result_def)

lemma JSON_stringify_Nil: "JSON_stringify [] = ''[]''"
  by (simp add: JSON_stringify_def)

lemma slice0_Finite:
  "slice0 xs (Finite n) =
     (if int (length xs) \<le> n then xs
      else if 0 \<le> n then take (nat n) xs
      else take (length xs - nat (- n)) xs)"
proof (cases "0 \<le> n")
  case True
  then show ?thesis by (simp add: min_def)
next
  case False
  then have "nat (max (int (length xs) + n) 0) = length xs - nat (- n)" by linarith
  with False show ?thesis by simp
qed

text \<open>
  Claim C2, as the specification states it: a non-positive \<open>num\<close> gives the empty slice.
  It fails for a negative \<open>num\<close>: \<^verbatim>\<open>slice(0, -1)\<close> drops the last card and keeps the others.
  With three cards due, \<^verbatim>\<open>get_due_cards\<close> with \<open>num = -1\<close> returns two cards.
\<close>

theorem get_due_cards_negative_num_counterexample:
  \<open>run (stub_client [11, 12, 13] sample_infos [] 0)
     (CallTool \<lparr>name = ''get_due_cards'',
                arguments = Some \<lparr>answers = None, front = None, back = None,
                                  num = Some (Finite (- 1))\<rparr>\<rparr>) [] =
     (Inr [TextContent
        ''[{"cardId":12,"question":"Q2","answer":"A2&B","due":3},{"cardId":11,"question":"Q1","answer":"A1","due":5}]''],
      [FindCardsCall ''is::due'', CardsInfoCall [11, 12, 13]]) \<and>
   fst (run (stub_client [11, 12, 13] sample_infos [] 0)
     (CallTool \<lparr>name = ''get_due_cards'',
                arguments = Some \<lparr>answers = None, front = None, back = None,
                                  num = Some (Finite (- 1))\<rparr>\<rparr>) []) \<noteq>
     Inr [TextContent (JSON_stringify [])]\<close>
  by (simp add: eval_defs)

text \<open>
  Claim C2, amended.  For every card list and every integer \<open>num\<close>, \<^verbatim>\<open>get_due_cards\<close> and
  \<^verbatim>\<open>get_new_cards\<close> return the JSON text of a slice of the ascending-by-due ordering and
  never throw by themselves: the full list when \<open>num\<close> is at least its length, the first
  \<open>num\<close> cards when \<open>0 \<le> num\<close> (none for \<open>num = 0\<close>), and for a negative \<open>num\<close> all cards
  but the last \<open>- num\<close> (none when \<open>- num\<close> is at least the length).
\<close>

theorem get_cards_slice:
  "tool \<in> {(''get_due_cards'', ''is:due''), (''get_new_cards'', ''is:new'')} \<longrightarrow>
     CallTool \<lparr>name = fst tool,
                arguments = Some \<lparr>answers = a, front = f, back = b, num = Some (Finite n)\<rparr>\<rparr> =
       FindCards (formatQuery (snd tool)) (\<lambda>cardIds.
         CardsInfo cardIds (\<lambda>infos.
           Return [TextContent (JSON_stringify
             (if int (length infos) \<le> n then sort_key due (map project infos)
              else if 0 \<le> n then take (nat n) (sort_key due (map project infos))
              else take (length infos - nat (- n)) (sort_key due (map project infos))))]))"
  by (auto simp add: CallTool_def get_cards_tree slice0_Finite simp del: slice0.simps
      cong: if_cong)

theorem get_cards_slice_witness:
  \<open>(''get_due_cards'', ''is:due'') \<in> {(''get_due_cards'', ''is:due''), (''get_new_cards'', ''is:new'')} \<and>
   fst (run (stub_client [11, 12, 13] sample_infos [] 0)
     (CallTool \<lparr>name = ''get_due_cards'',
                arguments = Some \<lparr>answers = None, front = None, back = None,
                                  num = Some (Finite 1)\<rparr>\<rparr>) []) =
     Inr [TextContent ''[{"cardId":12,"question":"Q2","answer":"A2&B","due":3}]''] \<and>
   fst (run (stub_client [11, 12, 13] sample_infos [] 0)
     (CallTool \<lparr>name = ''get_new_cards'',
                arguments = Some \<lparr>answers = None, front = None, back = None,
                                  num = Some (Finite (- 2))\<rparr>\<rparr>) []) =
     Inr [TextContent ''[{"cardId":12,"question":"Q2","answer":"A2&B","due":3}]'']\<close>
  using get_cards_slice [of "(''get_due_cards'', ''is:due'')" None None None 1]
    get_cards_slice [of "(''get_new_cards'', ''is:new'')" None None None "- 2"]
  by (simp add: eval_defs)

text \<open>
  Claim C10.  When \<^verbatim>\<open>Number(args.num)\<close> is NaN, \<^verbatim>\<open>get_due_cards\<close> and \<^verbatim>\<open>get_new_cards\<close> throw
  nothing by themselves: they make their two calls of the store client and return the
  text \<^verbatim>\<open>[]\<close>, the empty JSON array, whatever cards the store has.
\<close>

theorem get_cards_NaN:
  "Number (num args) = NaN \<longrightarrow>
     CallTool \<lparr>name = ''get_due_cards'', arguments = Some args\<rparr> =
       FindCards (formatQuery ''is:due'') (\<lambda>cardIds.
         CardsInfo cardIds (\<lambda>infos. Return [TextContent ''[]''])) \<and>
     CallTool \<lparr>name = ''get_new_cards'', arguments = Some args\<rparr> =
       FindCards (formatQuery ''is:new'') (\<lambda>cardIds.
         CardsInfo cardIds (\<lambda>infos. Return [TextContent ''[]'']))"
  by (simp add: CallTool_def get_cards_tree JSON_stringify_Nil)

theorem get_cards_NaN_witness:
  "Number (num \<lparr>answers = None, front = None, back = None, num = None\<rparr>) = NaN \<and>
   run (stub_client [11, 12, 13] sample_infos [] 0)
     (CallTool \<lparr>name = ''get_due_cards'',
                arguments = Some \<lparr>answers = None, front = None, back = None, num = None\<rparr>\<rparr>) [] =
     (Inr [TextContent ''[]''], [FindCardsCall ''is::due'', CardsInfoCall [11, 12, 13]]) \<and>
   run (stub_client [11, 12, 13] sample_infos [] 0)
     (CallTool \<lparr>name = ''get_new_cards'',
                arguments = Some \<lparr>answers = None, front = None, back = None, num = Some NaN\<rparr>\<rparr>) [] =
     (Inr [TextContent ''[]''], [FindCardsCall ''is::new'', CardsInfoCall [11, 12, 13]])"
  using get_cards_NaN [of "\<lparr>answers = None, front = None, back = None, num = None\<rparr>"]
    get_cards_NaN [of "\<lparr>answers = None, front = None, back = None, num = Some NaN\<rparr>"]
  by (simp add: stub_client_def formatQuery_def startsWith_def slice_from_def)

section \<open>Answering cards\<close>

lemma filter_index_nths: "filter_index p xs = nths xs {i. p i}"
  by (simp add: filter_index_def nths_def split_def)

lemma truthy_at_Cons: "truthy_at (r # rs) 0 = r" "truthy_at (r # rs) (Suc j) = truthy_at rs j"
  by (simp_all add: truthy_at_def)

lemma nths_truthy:
  "length rs = length xs \<Longrightarrow>
     nths xs {i. truthy_at rs i} = map fst (filter snd (zip xs rs)) \<and>
     nths xs {i. \<not> truthy_at rs i} = map fst (filter (\<lambda>p. \<not> snd p) (zip xs rs))"
  by (induction rs xs rule: list_induct2) (simp_all add: nths_Cons truthy_at_Cons)

lemma no_False_all_kept:
  "length rs = length xs \<Longrightarrow> False \<notin> set rs \<Longrightarrow> map fst (filter snd (zip xs rs)) = xs"
  by (induction rs xs rule: list_induct2) auto

lemma failed_empty_iff:
  "length rs = length xs \<Longrightarrow> (filter (\<lambda>p. \<not> snd p) (zip xs rs) = []) = (False \<notin> set rs)"
  by (induction rs xs rule: list_induct2) auto

text \<open>
  Claim C3.  For every list of answers, when the store client answers the batch with one
  boolean per answer: if some boolean is false, the call throws the error
  \<^verbatim>\<open>Failed to update cards with IDs:\<close> followed by exactly the card identifiers at the false
  positions, in order, and returns nothing else; if every boolean is true, the call
  returns the text \<^verbatim>\<open>Updated cards\<close> followed by all submitted card identifiers.
\<close>

theorem update_cards_all_or_nothing:
  assumes "answerCards cl (Some as) w = (Inr result, w')"
    and "length result = length as"
  shows "run cl (CallTool \<lparr>name = ''update_cards'',
                arguments = Some \<lparr>answers = Some as, front = f, back = b, num = n\<rparr>\<rparr>) w =
    (if False \<in> set result
     then Inl (Error (''Failed to update cards with IDs: '' @
            join '', '' (map toString
              (map (\<lambda>p. Answer.cardId (fst p)) (filter (\<lambda>p. \<not> snd p) (zip as result))))))
     else Inr [TextContent (''Updated cards '' @
            join '', '' (map toString (map Answer.cardId as)))],
     w')"
  using assms failed_empty_iff [of result as] no_False_all_kept [of result as]
  by (simp add: CallTool_def update_cards_def text_result_def filter_index_nths nths_truthy
      Let_def comp_def)

theorem update_cards_all_or_nothing_witness:
  "run (stub_client [] [] [True, False] 0)
     (CallTool \<lparr>name = ''update_cards'',
        arguments = Some \<lparr>answers = Some [\<lparr>Answer.cardId = 1, ease = 2\<rparr>, \<lparr>Answer.cardId = 2, ease = 4\<rparr>],
                          front = None, back = None, num = None\<rparr>\<rparr>) [] =
     (Inl (Error ''Failed to update cards with IDs: 2''),
      [AnswerCardsCall (Some [\<lparr>Answer.cardId = 1, ease = 2\<rparr>, \<lparr>Answer.cardId = 2, ease = 4\<rparr>])]) \<and>
   run (stub_client [] [] [True, True] 0)
     (CallTool \<lparr>name = ''update_cards'',
        arguments = Some \<lparr>answers = Some [\<lparr>Answer.cardId = 1, ease = 2\<rparr>, \<lparr>Answer.cardId = 2, ease = 4\<rparr>],
                          front = None, back = None, num = None\<rparr>\<rparr>) [] =
     (Inr [TextContent ''Updated cards 1, 2''],
      [AnswerCardsCall (Some [\<lparr>Answer.cardId = 1, ease = 2\<rparr>, \<lparr>Answer.cardId = 2, ease = 4\<rparr>])])"
proof -
  let ?as = "[\<lparr>Answer.cardId = 1, ease = 2\<rparr>, \<lparr>Answer.cardId = 2, ease = 4\<rparr>]"
  have a1: "answerCards (stub_client [] [] [True, False] 0) (Some ?as) [] =
      (Inr [True, False], [AnswerCardsCall (Some ?as)])"
    by (simp add: stub_client_def)
  have a2: "answerCards (stub_client [] [] [True, True] 0) (Some ?as) [] =
      (Inr [True, True], [AnswerCardsCall (Some ?as)])"
    by (simp add: stub_client_def)
  have l1: "length [True, False] = length ?as" and l2: "length [True, True] = length ?as"
    by simp_all
  show ?thesis
    using update_cards_all_or_nothing [OF a1 l1, of None None None]
      update_cards_all_or_nothing [OF a2 l2, of None None None]
    by (simp add: toString_def show_nat.simps digit_def)
qed

section \<open>Text normalizer: idempotence\<close>

lemma replace_all_no_match: "\<not> has_match m s \<Longrightarrow> replace_all m r s = s"
  by (induction s) auto

lemma markup_free_fixed: "markup_free s \<Longrightarrow> decode_entities (strip_markup s) = s"
  by (simp add: markup_free_def decode_entities_def strip_markup_def replace_all_no_match)

lemma split_nl_not_Nil: "split_nl s \<noteq> []"
  by (induction s) (auto split: list.splits)

lemma split_nl_no_newline: "l \<in> set (split_nl s) \<Longrightarrow> CHR 0x0A \<notin> set l"
  by (induction s arbitrary: l) (auto split: list.splits if_splits)

lemma split_nl_line: "CHR 0x0A \<notin> set x \<Longrightarrow> split_nl x = [x]"
  by (induction x) auto

lemma split_nl_append: "CHR 0x0A \<notin> set x \<Longrightarrow> split_nl (x @ CHR 0x0A # s) = x # split_nl s"
  by (induction x) auto

lemma split_nl_join:
  "ls \<noteq> [] \<Longrightarrow> \<forall>l\<in>set ls. CHR 0x0A \<notin> set l \<Longrightarrow> split_nl (join [CHR 0x0A] ls) = ls"
proof (induction ls)
  case Nil
  then show ?case by simp
next
  case (Cons l ls)
  show ?case
  proof (cases ls)
    case Nil
    with Cons.prems show ?thesis by (simp add: split_nl_line)
  next
    case (Cons l' ls')
    with Cons.prems Cons.IH show ?thesis by (simp add: split_nl_append)
  qed
qed

lemma set_trim: "set (trim s) \<subseteq> set s"
  by (auto simp: trim_def dest!: set_dropWhileD)

lemma last_dropWhile_keep: "dropWhile P xs \<noteq> [] \<Longrightarrow> last (dropWhile P xs) = last xs"
  by (induction xs) (auto split: if_splits)

lemma trim_ends:
  assumes "trim s \<noteq> []"
  shows "\<not> isWhiteSpace (hd (trim s))" and "\<not> isWhiteSpace (last (trim s))"
proof -
  let ?u = "dropWhile isWhiteSpace s"
  let ?v = "dropWhile isWhiteSpace (rev ?u)"
  from assms have v: "?v \<noteq> []" by (simp add: trim_def)
  have u: "?u \<noteq> []"
  proof
    assume e: "?u = []"
    have "?v = []" unfolding e by simp
    with v show False by simp
  qed
  have "hd (trim s) = last ?v" using v by (simp add: trim_def hd_rev)
  also have "\<dots> = last (rev ?u)" using v by (rule last_dropWhile_keep)
  also have "\<dots> = hd ?u" using u by (simp add: last_rev)
  finally show "\<not> isWhiteSpace (hd (trim s))" using hd_dropWhile [OF u] by simp
  have "last (trim s) = hd ?v" using v by (simp add: trim_def last_rev)
  then show "\<not> isWhiteSpace (last (trim s))" using hd_dropWhile [OF v] by simp
qed

lemma trim_fixed:
  assumes "t = [] \<or> (\<not> isWhiteSpace (hd t) \<and> \<not> isWhiteSpace (last t))"
  shows "trim t = t"
proof (cases "t = []")
  case True
  then show ?thesis by (simp add: trim_def)
next
  case False
  with assms have h: "\<not> isWhiteSpace (hd t)" and l: "\<not> isWhiteSpace (last t)" by auto
  from False h have "dropWhile isWhiteSpace t = t" by (simp add: dropWhile_eq_self_iff)
  moreover from False l have "dropWhile isWhiteSpace (rev t) = rev t"
    by (simp add: dropWhile_eq_self_iff hd_rev)
  ultimately show ?thesis by (simp add: trim_def)
qed

lemma trim_idem: "trim (trim s) = trim s"
  using trim_ends [of s] by (intro trim_fixed) blast

lemma clean_lines_idem: "clean_lines (clean_lines s) = clean_lines s"
proof -
  let ?ls = "filter (\<lambda>line. length line > 0) (map trim (split_nl s))"
  have no_nl: "\<forall>l\<in>set ?ls. CHR 0x0A \<notin> set l"
    using split_nl_no_newline set_trim by fastforce
  have trimmed: "map trim ?ls = ?ls"
    by (simp add: filter_map comp_def trim_idem cong: filter_cong)
  show ?thesis
  proof (cases "?ls = []")
    case True
    then show ?thesis by (simp add: clean_lines_def trim_def)
  next
    case False
    then have "split_nl (join [CHR 0x0A] ?ls) = ?ls"
      using no_nl by (rule split_nl_join)
    then have "clean_lines (clean_lines s) =
        join [CHR 0x0A] (filter (\<lambda>line. length line > 0) (map trim ?ls))"
      by (simp add: clean_lines_def)
    also have "\<dots> = join [CHR 0x0A] ?ls" by (simp only: trimmed) simp
    finally show ?thesis by (simp add: clean_lines_def)
  qed
qed

lemma char_free_markup_free:
  assumes "CHR ''<'' \<notin> set s" "CHR ''&'' \<notin> set s" "CHR ''['' \<notin> set s"
  shows "markup_free s"
  using assms unfolding markup_free_def
  by (induction s)
     (auto simp: re_style_def re_div_def re_tag_def re_anki_play_def re_lit_def startsWith_def
        style_open_def)

text \<open>
  Claim C1, as the specification states it: normalizing twice is the same as normalizing
  once, for every input.  It fails where decoding an entity produces markup or another
  entity, which the second pass then treats as such: the text of a card that shows HTML
  source loses the tags it shows.
\<close>

theorem cleanWithRegex_not_idempotent_counterexample:
  "cleanWithRegex ''&lt;b&gt;bold&lt;/b&gt;'' = ''<b>bold</b>'' \<and>
   cleanWithRegex (cleanWithRegex ''&lt;b&gt;bold&lt;/b&gt;'') = ''bold'' \<and>
   cleanWithRegex (cleanWithRegex ''&lt;b&gt;bold&lt;/b&gt;'') \<noteq>
     cleanWithRegex ''&lt;b&gt;bold&lt;/b&gt;''"
  by (simp add: eval_defs)

text \<open>
  Claim C1, amended.  For every input whose normalized text is free of markup (none of the
  regular expressions of the normalizer matches in it; in particular a text without the
  characters \<^verbatim>\<open><\<close>, \<^verbatim>\<open>&\<close> and \<^verbatim>\<open>[\<close>), normalizing again changes nothing.  The line
  clean-up by itself is idempotent on every input.
\<close>

theorem cleanWithRegex_idempotent_on_clean:
  "(markup_free (cleanWithRegex x) \<longrightarrow> cleanWithRegex (cleanWithRegex x) = cleanWithRegex x) \<and>
   (CHR ''<'' \<notin> set (cleanWithRegex x) \<and> CHR ''&'' \<notin> set (cleanWithRegex x) \<and>
    CHR ''['' \<notin> set (cleanWithRegex x) \<longrightarrow> markup_free (cleanWithRegex x)) \<and>
   clean_lines (clean_lines x) = clean_lines x"
proof (intro conjI impI)
  assume "markup_free (cleanWithRegex x)"
  then have "cleanWithRegex (cleanWithRegex x) = clean_lines (cleanWithRegex x)"
    by (simp add: markup_free_fixed cleanWithRegex_def)
  then show "cleanWithRegex (cleanWithRegex x) = cleanWithRegex x"
    by (simp add: cleanWithRegex_def clean_lines_idem)
next
  assume "CHR ''<'' \<notin> set (cleanWithRegex x) \<and> CHR ''&'' \<notin> set (cleanWithRegex x) \<and>
    CHR ''['' \<notin> set (cleanWithRegex x)"
  then show "markup_free (cleanWithRegex x)" by (simp add: char_free_markup_free)
next
  show "clean_lines (clean_lines x) = clean_lines x" by (rule clean_lines_idem)
qed

theorem cleanWithRegex_idempotent_on_clean_witness:
  "cleanWithRegex ''<div>2 > 1</div><div> Q&A <b>bold</b>&nbsp;</div>'' = ''2 > 1'' @ [CHR 0x0A] @ ''Q&A  bold'' \<and>
   markup_free (cleanWithRegex ''<div>2 > 1</div><div> Q&A <b>bold</b>&nbsp;</div>'') \<and>
   cleanWithRegex (cleanWithRegex ''<div>2 > 1</div><div> Q&A <b>bold</b>&nbsp;</div>'') =
     cleanWithRegex ''<div>2 > 1</div><div> Q&A <b>bold</b>&nbsp;</div>''"
proof -
  have v: "cleanWithRegex ''<div>2 > 1</div><div> Q&A <b>bold</b>&nbsp;</div>'' =
      ''2 > 1'' @ [CHR 0x0A] @ ''Q&A  bold''"
    by (simp add: eval_defs)
  have m: "markup_free (cleanWithRegex ''<div>2 > 1</div><div> Q&A <b>bold</b>&nbsp;</div>'')"
    unfolding v by (simp add: markup_free_def eval_defs)
  show ?thesis
    using cleanWithRegex_idempotent_on_clean [of "''<div>2 > 1</div><div> Q&A <b>bold</b>&nbsp;</div>''"] m v
    by simp
qed

section \<open>Text normalizer: what is left of markup\<close>

subsection \<open>Scanning over text that cannot start a match\<close>

lemma replace_all_skip:
  assumes "\<And>c s. c \<noteq> x \<Longrightarrow> m (c # s) = None" and "x \<notin> set p"
  shows "replace_all m r (p @ s) = p @ replace_all m r s"
  using assms(2)
proof (induction p)
  case Nil
  show ?case by simp
next
  case (Cons a p)
  then have "m (a # p @ s) = None" using assms(1) [of a] by auto
  with Cons show ?case by simp
qed

lemma replace_all_hit:
  assumes "p \<noteq> []" "m (p @ u) = Some (length p)"
  shows "replace_all m r (p @ u) = r @ replace_all m r u"
proof -
  from assms(1) obtain c p' where p: "p = c # p'" by (cases p) auto
  with assms(2) show ?thesis by simp
qed

lemma re_style_first: "c \<noteq> CHR ''<'' \<Longrightarrow> re_style (c # s) = None"
  by (simp add: re_style_def style_open_def)

lemma re_div_first: "c \<noteq> CHR ''<'' \<Longrightarrow> re_div (c # s) = None"
  by (simp add: re_div_def startsWith_def)

lemma re_tag_first: "c \<noteq> CHR ''<'' \<Longrightarrow> re_tag (c # s) = None"
  by (simp add: re_tag_def startsWith_def)

lemma re_anki_play_first: "c \<noteq> CHR ''['' \<Longrightarrow> re_anki_play (c # s) = None"
  by (simp add: re_anki_play_def startsWith_def)

lemma re_lit_first: "c \<noteq> CHR ''&'' \<Longrightarrow> re_lit (entity_text e) (c # s) = None"
  by (cases e) (simp_all add: re_lit_def startsWith_def)

lemma entity_text_chars:
  "CHR ''<'' \<notin> set (entity_text e)" "CHR ''['' \<notin> set (entity_text e)"
  "CHR ''&'' \<notin> set (tl (entity_text e))" "hd (entity_text e) = CHR ''&''"
  "entity_text e \<noteq> []"
  by (cases e; simp)+

lemma replace_all_pieces:
  assumes step: "\<And>p u. p \<in> P \<Longrightarrow> nice u \<Longrightarrow>
      \<exists>qs. set qs \<subseteq> Q \<and> replace_all m r (p @ u) = concat qs @ replace_all m r u"
    and nice: "\<And>ps. set ps \<subseteq> P \<Longrightarrow> nice (concat ps)"
  shows "set ps \<subseteq> P \<Longrightarrow> \<exists>qs. set qs \<subseteq> Q \<and> replace_all m r (concat ps) = concat qs"
proof (induction ps)
  case Nil
  show ?case by (intro exI [of _ "[]"]) simp
next
  case (Cons p ps)
  then obtain qs where qs: "set qs \<subseteq> Q" "replace_all m r (concat ps) = concat qs"
    by auto
  from Cons.prems have "p \<in> P" and "nice (concat ps)" using nice by auto
  from step [OF this] obtain qs' where
    "set qs' \<subseteq> Q" "replace_all m r (p @ concat ps) = concat qs' @ replace_all m r (concat ps)"
    by blast
  with qs show ?case by (intro exI [of _ "qs' @ qs"]) simp
qed

subsection \<open>The three tag expressions at a tag\<close>

lemma notGt_span:
  assumes "CHR ''>'' \<notin> set b"
  shows "takeWhile notGt (b @ CHR ''>'' # u) = b" and "dropWhile notGt (b @ CHR ''>'' # u) = CHR ''>'' # u"
  using assms by (induction b) (auto simp: notGt_def)

lemma re_tag_at_tag:
  assumes "b \<noteq> []" "CHR ''>'' \<notin> set b"
  shows "re_tag (CHR ''<'' # b @ CHR ''>'' # u) = Some (length b + 2)"
  using assms by (simp add: re_tag_def startsWith_def notGt_span)

lemma replace_tag_at_tag:
  assumes "b \<noteq> []" "CHR ''>'' \<notin> set b"
  shows "replace_all re_tag r (CHR ''<'' # b @ CHR ''>'' # u) = r @ replace_all re_tag r u"
  using assms by (simp add: re_tag_at_tag)

lemma before_delimiter:
  "x \<notin> set xs \<Longrightarrow> b @ x # u = xs @ v \<Longrightarrow> \<exists>b'. b = xs @ b' \<and> v = b' @ x # u"
proof (induction xs arbitrary: b)
  case Nil
  then show ?case by simp
next
  case (Cons y ys)
  then show ?case by (cases b) auto
qed

lemma replace_div_at_tag:
  assumes "CHR ''>'' \<notin> set b" "CHR ''<'' \<notin> set b"
  shows "replace_all re_div r (CHR ''<'' # b @ CHR ''>'' # u) = r @ replace_all re_div r u \<or>
         replace_all re_div r (CHR ''<'' # b @ CHR ''>'' # u) =
           CHR ''<'' # b @ CHR ''>'' # replace_all re_div r u"
proof (cases "startsWith (CHR ''<'' # b @ CHR ''>'' # u) ''<div''")
  case True
  then have "prefix ''div'' (b @ CHR ''>'' # u)"
    by (simp add: startsWith_prefix)
  then obtain z where "b @ CHR ''>'' # u = ''div'' @ z"
    by (auto simp: prefix_def)
  from before_delimiter [OF _ this] obtain b' where b: "b = ''div'' @ b'"
    by auto
  with assms have "CHR ''>'' \<notin> set b'" by simp
  then have "re_div (CHR ''<'' # b @ CHR ''>'' # u) = Some (length b + 2)"
    by (simp add: re_div_def startsWith_def b notGt_span)
  then show ?thesis by simp
next
  case False
  then have "re_div (CHR ''<'' # b @ CHR ''>'' # u) = None" by (simp add: re_div_def)
  moreover have "replace_all re_div r ((b @ ''>'') @ u) = (b @ ''>'') @ replace_all re_div r u"
    using assms by (intro replace_all_skip [where x = "CHR ''<''"]) (simp_all add: re_div_first)
  ultimately show ?thesis by simp
qed

subsection \<open>Style blocks\<close>

lemma match_seq_Cons:
  "match_seq (k # ks) s = (\<exists>c cs. s = c # cs \<and> c \<in> set k \<and> match_seq ks cs)"
  by (cases s) auto

lemma style_open_shape:
  assumes "match_seq style_open s"
  shows "\<exists>xs v. s = CHR ''<'' # xs @ v \<and> length xs = 5 \<and> CHR ''>'' \<notin> set xs"
proof -
  from assms obtain c1 c2 c3 c4 c5 v where
    "s = CHR ''<'' # c1 # c2 # c3 # c4 # c5 # v"
    "c1 \<in> set ''sS''" "c2 \<in> set ''tT''" "c3 \<in> set ''yY''" "c4 \<in> set ''lL''" "c5 \<in> set ''eE''"
    by (auto simp: style_open_def match_seq_Cons)
  then show ?thesis
    by (intro exI [of _ "[c1, c2, c3, c4, c5]"] exI [of _ v]) auto
qed

lemma style_close_shape:
  assumes "match_seq style_close s"
  shows "\<exists>xs v. s = CHR ''<'' # xs @ CHR ''>'' # v \<and> length xs = 6 \<and> CHR ''>'' \<notin> set xs"
proof -
  from assms obtain c1 c2 c3 c4 c5 c6 v where
    "s = CHR ''<'' # c1 # c2 # c3 # c4 # c5 # c6 # CHR ''>'' # v"
    "c1 \<in> set ''/''" "c2 \<in> set ''sS''" "c3 \<in> set ''tT''" "c4 \<in> set ''yY''"
    "c5 \<in> set ''lL''" "c6 \<in> set ''eE''"
    by (auto simp: style_close_def match_seq_Cons)
  then show ?thesis
    by (intro exI [of _ "[c1, c2, c3, c4, c5, c6]"] exI [of _ v]) auto
qed

lemma same_up_to_delimiter:
  "x \<notin> set xs \<Longrightarrow> x \<notin> set ys \<Longrightarrow> xs @ x # u = ys @ x # v \<Longrightarrow> xs = ys"
proof (induction xs arbitrary: ys)
  case Nil
  then show ?case by (cases ys) auto
next
  case (Cons a xs)
  then show ?case by (cases ys) auto
qed

lemma find_close_skip:
  "CHR ''<'' \<notin> set p \<Longrightarrow> find_close (p @ u) = map_option (\<lambda>k. length p + k) (find_close u)"
proof (induction p)
  case Nil
  show ?case by (simp add: option.map_ident)
next
  case (Cons a p)
  then have "\<not> match_seq style_close (a # p @ u)" by (auto simp: style_close_def)
  with Cons show ?case by (simp add: option.map_comp comp_def)
qed

lemma match_seq_extend: "match_seq ks x \<Longrightarrow> match_seq ks (x @ u)"
  by (induction ks x rule: match_seq.induct) auto

lemma match_seq_within: "match_seq ks (x @ u) \<Longrightarrow> length ks \<le> length x \<Longrightarrow> match_seq ks x"
  by (induction ks x rule: match_seq.induct) auto

lemma match_seq_straddle:
  "match_seq ks (x @ u) \<Longrightarrow> length x < length ks \<Longrightarrow> match_seq (drop (length x) ks) u"
  by (induction ks x rule: match_seq.induct) auto

lemma style_close_tail:
  assumes "0 < j" "j < 8"
  shows "\<exists>k ks. drop j style_close = k # ks \<and> CHR ''<'' \<notin> set k"
proof -
  from assms have "j \<in> {1, 2, 3, 4, 5, 6, 7}" by auto
  then show ?thesis by (auto simp: style_close_def)
qed

lemma style_close_no_straddle:
  assumes "match_seq style_close (x @ u)" "x \<noteq> []" "u = [] \<or> hd u = CHR ''<''"
  shows "match_seq style_close x"
proof (cases "length style_close \<le> length x")
  case True
  with assms(1) show ?thesis by (rule match_seq_within)
next
  case False
  then have lt: "length x < length style_close" by simp
  from match_seq_straddle [OF assms(1) lt]
  have m: "match_seq (drop (length x) style_close) u" .
  from assms(2) lt have "0 < length x" "length x < 8" by (simp_all add: style_close_def)
  from style_close_tail [OF this] obtain k ks where
    "drop (length x) style_close = k # ks" "CHR ''<'' \<notin> set k" by blast
  with m assms(3) show ?thesis by (cases u) auto
qed

lemma find_close_none_append:
  assumes "find_close p = None" "u = [] \<or> hd u = CHR ''<''"
  shows "find_close (p @ u) = map_option (\<lambda>k. length p + k) (find_close u)"
  using assms(1)
proof (induction p)
  case Nil
  show ?case by (simp add: option.map_ident)
next
  case (Cons a p)
  from Cons.prems have n: "\<not> match_seq style_close (a # p)" and f: "find_close p = None"
    by (auto split: if_splits)
  have "\<not> match_seq style_close ((a # p) @ u)"
    using style_close_no_straddle [of "a # p" u] n assms(2) by auto
  with Cons.IH [OF f] show ?case by (simp add: option.map_comp comp_def)
qed

lemma find_close_suffix_None: "find_close (x @ y) = None \<Longrightarrow> find_close y = None"
  by (induction x) (auto split: if_splits)

lemma find_close_before_closing:
  assumes "find_close p = None" "length closing = 8" "match_seq style_close closing"
  shows "find_close (p @ closing @ u) = Some (length p)"
proof -
  from style_close_shape [OF assms(3)] obtain t where c: "closing = CHR ''<'' # t" by auto
  from assms(3) have "match_seq style_close (closing @ u)" by (rule match_seq_extend)
  then have "find_close (closing @ u) = Some 0" by (simp add: c)
  moreover have "closing @ u = [] \<or> hd (closing @ u) = CHR ''<''" by (simp add: c)
  ultimately show ?thesis using find_close_none_append [OF assms(1), of "closing @ u"] by simp
qed

lemma style_open_letters:
  assumes "length opening = 6" "match_seq style_open opening"
  shows "\<exists>c t. opening = CHR ''<'' # c # t \<and> c \<in> set ''sS'' \<and> length t = 4 \<and>
           CHR ''<'' \<notin> set t"
proof -
  from assms(2) obtain c1 c2 c3 c4 c5 v where
    o: "opening = CHR ''<'' # c1 # c2 # c3 # c4 # c5 # v"
    and l: "c1 \<in> set ''sS''" "c2 \<in> set ''tT''" "c3 \<in> set ''yY''" "c4 \<in> set ''lL''" "c5 \<in> set ''eE''"
    by (auto simp: style_open_def match_seq_Cons)
  from o assms(1) have "v = []" by simp
  with o l show ?thesis
    by (intro exI [of _ c1] exI [of _ "[c2, c3, c4, c5]"]) auto
qed

lemma find_close_block:
  assumes "well_formed (StyleBlock opening attrs css closing)"
  shows "find_close (render (StyleBlock opening attrs css closing) @ u) =
         Some (length (opening @ attrs @ CHR ''>'' # css))"
proof -
  let ?inner = "attrs @ CHR ''>'' # css"
  let ?W = "?inner @ closing @ u"
  from assms have inner: "find_close ?inner = None"
    and cl: "length closing = 8" "match_seq style_close closing"
    and op: "length opening = 6" "match_seq style_open opening"
    by simp_all
  from style_open_letters [OF op] obtain c t where
    o: "opening = CHR ''<'' # c # t" and c: "c \<in> set ''sS''" and t: "length t = 4" "CHR ''<'' \<notin> set t"
    by blast
  from c have ct: "CHR ''<'' \<notin> set (c # t)" using t(2) by auto
  have W: "find_close ?W = Some (length ?inner)"
    using inner cl by (rule find_close_before_closing)
  from c have "\<not> match_seq style_close (CHR ''<'' # c # t @ ?W)"
    by (auto simp: style_close_def)
  then have a: "find_close (opening @ ?W) = map_option Suc (find_close ((c # t) @ ?W))"
    by (simp add: o)
  have b: "find_close ((c # t) @ ?W) = map_option (\<lambda>k. length (c # t) + k) (find_close ?W)"
    using ct by (rule find_close_skip)
  have "find_close (opening @ ?W) = Some (length opening + length ?inner)"
    by (simp only: a b W) (simp add: o)
  then show ?thesis by simp
qed

lemma re_style_at_tag:
  assumes "CHR ''>'' \<notin> set b"
  shows "re_style (CHR ''<'' # b @ CHR ''>'' # u) = None \<or>
         (\<exists>k. find_close u = Some k \<and>
              re_style (CHR ''<'' # b @ CHR ''>'' # u) = Some (length b + 2 + k + 8))"
proof (cases "match_seq style_open (CHR ''<'' # b @ CHR ''>'' # u)")
  case False
  then show ?thesis by (simp add: re_style_def)
next
  case True
  from style_open_shape [OF this] obtain xs v where
    s: "b @ CHR ''>'' # u = xs @ v" and xs: "length xs = 5" "CHR ''>'' \<notin> set xs"
    by auto
  from before_delimiter [OF xs(2) s] obtain b' where b: "b = xs @ b'" by auto
  with assms have b': "CHR ''>'' \<notin> set b'" by simp
  have d: "drop 6 (CHR ''<'' # b @ CHR ''>'' # u) = b' @ CHR ''>'' # u"
    using xs(1) by (simp add: b)
  have "re_style (CHR ''<'' # b @ CHR ''>'' # u) =
      (case find_close u of None \<Rightarrow> None | Some k \<Rightarrow> Some (6 + length b' + 1 + k + 8))"
    using True by (simp only: re_style_def d notGt_span [OF b'] if_True list.case)
  then show ?thesis
    using xs(1) by (cases "find_close u") (simp_all add: b)
qed

lemma re_style_at_block:
  assumes "well_formed (StyleBlock opening attrs css closing)"
  shows "re_style (render (StyleBlock opening attrs css closing) @ u) =
         Some (length (render (StyleBlock opening attrs css closing)))"
proof -
  let ?inner = "attrs @ CHR ''>'' # css"
  let ?S = "opening @ ?inner @ closing @ u"
  from assms have inner: "find_close ?inner = None"
    and cl: "length closing = 8" "match_seq style_close closing"
    and op: "length opening = 6" "match_seq style_open opening"
    by simp_all
  have gt: "CHR ''>'' \<in> set ?inner" "\<not> notGt (CHR ''>'')" by (simp_all add: notGt_def)
  have o: "match_seq style_open ?S" using op(2) by (rule match_seq_extend)
  have d: "drop 6 ?S = ?inner @ closing @ u" using op(1) by simp
  have tw: "takeWhile notGt (?inner @ closing @ u) = takeWhile notGt ?inner"
    using gt by (rule takeWhile_append1)
  have dw: "dropWhile notGt (?inner @ closing @ u) = dropWhile notGt ?inner @ closing @ u"
    using gt by (rule dropWhile_append1)
  have "dropWhile notGt ?inner \<noteq> []" using gt by auto
  then obtain g t' where t: "dropWhile notGt ?inner = g # t'"
    by (cases "dropWhile notGt ?inner") auto
  have split: "(takeWhile notGt ?inner @ [g]) @ t' = ?inner"
    by (simp only: append_assoc append_Cons append_Nil t [symmetric] takeWhile_dropWhile_id)
  from inner have "find_close t' = None"
    by (subst (asm) split [symmetric]) (rule find_close_suffix_None)
  then have fc: "find_close (t' @ closing @ u) = Some (length t')"
    using cl by (rule find_close_before_closing)
  have r: "re_style ?S = Some (6 + length (takeWhile notGt ?inner) + 1 + length t' + 8)"
    by (simp only: re_style_def o if_True d dw tw t append_Cons list.case fc option.case)
  from split have "length ((takeWhile notGt ?inner @ [g]) @ t') = length ?inner" by (rule arg_cong)
  then have "length opening + length ?inner + length closing =
      6 + length (takeWhile notGt ?inner) + 1 + length t' + 8"
    using op(1) cl(1) by (simp del: takeWhile_dropWhile_id)
  with r show ?thesis by simp
qed

lemma markup_Cons: "markup (c # cs) = render c @ markup cs"
  by (simp add: markup_def)

lemma close_aligned:
  assumes "\<forall>c\<in>set cs. well_formed c" and "find_close (markup cs) = Some k"
  shows "\<exists>j. drop (k + 8) (markup cs) = markup (drop j cs)"
  using assms
proof (induction cs arbitrary: k)
  case Nil
  then show ?case by (simp add: markup_def)
next
  case (Cons c cs)
  have step: "\<exists>j. drop (k + 8) (markup (c # cs)) = markup (drop j (c # cs))"
    if "find_close (markup cs) = Some k'" and "k = length (render c) + k'" for k'
  proof -
    from Cons.IH [of k'] Cons.prems(1) that(1) obtain j where
      "drop (k' + 8) (markup cs) = markup (drop j cs)" by auto
    with that(2) show ?thesis
      by (intro exI [of _ "Suc j"]) (simp add: markup_Cons)
  qed
  show ?case
  proof (cases c)
    case (Entity e)
    have "find_close (markup (c # cs)) =
        map_option (\<lambda>k. length (entity_text e) + k) (find_close (markup cs))"
      by (simp add: markup_Cons Entity find_close_skip entity_text_chars)
    with Cons.prems(2) obtain k' where "find_close (markup cs) = Some k'"
      "k = length (render c) + k'"
      by (cases "find_close (markup cs)") (auto simp: Entity)
    then show ?thesis by (rule step)
  next
    case (Tag b)
    with Cons.prems(1) have b: "CHR ''<'' \<notin> set b" "CHR ''>'' \<notin> set b" by auto
    show ?thesis
    proof (cases "match_seq style_close (markup (c # cs))")
      case True
      with Cons.prems(2) have k: "k = 0" by (simp add: markup_Cons Tag)
      from style_close_shape [OF True] obtain xs v where
        s: "b @ CHR ''>'' # markup cs = xs @ CHR ''>'' # v" and xs: "length xs = 6" "CHR ''>'' \<notin> set xs"
        by (auto simp: markup_Cons Tag)
      from b(2) xs(2) s have "b = xs" by (rule same_up_to_delimiter)
      with xs(1) have "drop 8 (markup (c # cs)) = markup cs"
        by (simp add: markup_Cons Tag)
      with k show ?thesis by (intro exI [of _ "Suc 0"]) simp
    next
      case False
      then have "find_close (markup (c # cs)) =
          map_option Suc (find_close ((b @ ''>'') @ markup cs))"
        by (simp add: markup_Cons Tag)
      also have "\<dots> = map_option Suc (map_option (\<lambda>k. length (b @ ''>'') + k) (find_close (markup cs)))"
        using b(1) by (subst find_close_skip) simp_all
      finally obtain k' where "find_close (markup cs) = Some k'"
        "k = length (render c) + k'" using Cons.prems(2)
        by (cases "find_close (markup cs)") (auto simp: Tag)
      then show ?thesis by (rule step)
    qed
  next
    case (StyleBlock opn a css cls)
    with Cons.prems(1) have w: "well_formed (StyleBlock opn a css cls)" by auto
    from find_close_block [OF w, of "markup cs"]
    have "find_close (markup (c # cs)) = Some (length (opn @ a @ CHR ''>'' # css))"
      by (simp only: markup_Cons StyleBlock)
    with Cons.prems(2) w have "k + 8 = length (render c)" by (simp add: StyleBlock)
    then have "drop (k + 8) (markup (c # cs)) = markup cs"
      by (simp only: markup_Cons) simp
    then show ?thesis by (intro exI [of _ "Suc 0"]) simp
  qed
qed

lemma drop_length_append: "drop (length p + n) (p @ s) = drop n s"
  by simp

lemma ents_mono: "set cs' \<subseteq> set cs \<Longrightarrow> ENTS (ents cs') \<subseteq> ENTS (ents cs)"
  by (auto simp: ENTS_def ents_def)

lemma strip_style_pieces:
  "(\<forall>c\<in>set cs. well_formed c) \<longrightarrow>
     (\<exists>ps. set ps \<subseteq> TAGS \<union> ENTS (ents cs) \<and>
           replace_all re_style [] (markup cs) = concat ps)"
proof (induction cs rule: length_induct)
  case (1 cs)
  show ?case
  proof (intro impI)
    assume wf: "\<forall>c\<in>set cs. well_formed c"
    have sub: "\<exists>ps. set ps \<subseteq> TAGS \<union> ENTS (ents cs) \<and>
        replace_all re_style [] (markup cs') = concat ps"
      if "length cs' < length cs" "set cs' \<subseteq> set cs" for cs'
    proof -
      from that wf have "\<forall>c\<in>set cs'. well_formed c" by auto
      with 1 that(1) obtain ps where
        "set ps \<subseteq> TAGS \<union> ENTS (ents cs')" "replace_all re_style [] (markup cs') = concat ps"
        by blast
      with ents_mono [OF that(2)] show ?thesis by blast
    qed
    show "\<exists>ps. set ps \<subseteq> TAGS \<union> ENTS (ents cs) \<and>
        replace_all re_style [] (markup cs) = concat ps"
    proof (cases cs)
      case Nil
      then show ?thesis by (intro exI [of _ "[]"]) (simp add: markup_def)
    next
      case (Cons c rest)
      from sub [of rest] obtain ps where
        ps: "set ps \<subseteq> TAGS \<union> ENTS (ents cs)" "replace_all re_style [] (markup rest) = concat ps"
        using Cons by auto
      show ?thesis
      proof (cases c)
        case (Entity e)
        have "replace_all re_style [] (entity_text e @ markup rest) =
            entity_text e @ replace_all re_style [] (markup rest)"
          by (intro replace_all_skip [where x = "CHR ''<''"])
             (simp_all add: re_style_first entity_text_chars)
        moreover have "entity_text e \<in> ENTS (ents cs)"
          by (simp add: ENTS_def ents_def Cons Entity)
        ultimately show ?thesis
          using ps by (intro exI [of _ "entity_text e # ps"]) (simp add: Cons Entity markup_Cons)
      next
        case (Tag b)
        from wf have b: "b \<noteq> []" "CHR ''<'' \<notin> set b" "CHR ''>'' \<notin> set b"
          by (auto simp: Cons Tag)
        then have tag: "render c \<in> TAGS" by (auto simp: TAGS_def Tag)
        from re_style_at_tag [OF b(3), of "markup rest"] show ?thesis
        proof
          assume none: "re_style (CHR ''<'' # b @ CHR ''>'' # markup rest) = None"
          have "replace_all re_style [] ((b @ ''>'') @ markup rest) =
              (b @ ''>'') @ replace_all re_style [] (markup rest)"
            using b by (intro replace_all_skip [where x = "CHR ''<''"]) (simp_all add: re_style_first)
          with none have "replace_all re_style [] (markup cs) = render c @ concat ps"
            by (simp add: Cons Tag markup_Cons ps)
          with tag ps(1) show ?thesis by (intro exI [of _ "render c # ps"]) simp
        next
          assume "\<exists>k. find_close (markup rest) = Some k \<and>
            re_style (CHR ''<'' # b @ CHR ''>'' # markup rest) = Some (length b + 2 + k + 8)"
          then obtain k where k: "find_close (markup rest) = Some k"
            "re_style (CHR ''<'' # b @ CHR ''>'' # markup rest) = Some (length b + 2 + k + 8)"
            by blast
          from close_aligned [of rest k] obtain j where
            j: "drop (k + 8) (markup rest) = markup (drop j rest)"
            using wf Cons k(1) by auto
          have "length b + 2 + k + 8 - 1 = length (b @ ''>'') + (k + 8)" by simp
          then have "drop (length b + 2 + k + 8 - 1) ((b @ ''>'') @ markup rest) =
              drop (k + 8) (markup rest)"
            by (simp only: drop_length_append)
          then have "drop (length b + 2 + k + 8 - 1) (b @ CHR ''>'' # markup rest) =
              drop (k + 8) (markup rest)"
            by simp
          with k(2) j have "replace_all re_style [] (markup cs) =
              replace_all re_style [] (markup (drop j rest))"
            by (simp add: Cons Tag markup_Cons del: drop_append)
          moreover have "length (drop j rest) < length cs" "set (drop j rest) \<subseteq> set cs"
            using Cons set_drop_subset [of j rest] by auto
          from sub [OF this] obtain qs where
            "set qs \<subseteq> TAGS \<union> ENTS (ents cs)"
            "replace_all re_style [] (markup (drop j rest)) = concat qs"
            by blast
          ultimately show ?thesis by auto
        qed
      next
        case (StyleBlock opn a css cls)
        from wf have w: "well_formed (StyleBlock opn a css cls)"
          by (auto simp: Cons StyleBlock)
        then have "render (StyleBlock opn a css cls) \<noteq> []" by auto
        from replace_all_hit [of "render (StyleBlock opn a css cls)" re_style
            "markup rest" "[]", OF this re_style_at_block [OF w]]
        have "replace_all re_style [] (markup cs) = replace_all re_style [] (markup rest)"
          by (simp only: Cons StyleBlock markup_Cons append_Nil)
        with ps show ?thesis by auto
      qed
    qed
  qed
qed

subsection \<open>Tags\<close>

lemma strip_div_pieces:
  assumes "set ps \<subseteq> TAGS \<union> ENTS E"
  shows "\<exists>qs. set qs \<subseteq> TAGS \<union> ENTS E \<union> CHS {CHR 0x0A} \<and>
           replace_all re_div [CHR 0x0A] (concat ps) = concat qs"
proof (rule replace_all_pieces [where P = "TAGS \<union> ENTS E" and nice = "\<lambda>u. True", OF _ _ assms])
  fix p u
  assume p: "p \<in> TAGS \<union> ENTS E"
  show "\<exists>qs. set qs \<subseteq> TAGS \<union> ENTS E \<union> CHS {CHR 0x0A} \<and>
      replace_all re_div [CHR 0x0A] (p @ u) = concat qs @ replace_all re_div [CHR 0x0A] u"
  proof (cases "p \<in> TAGS")
    case True
    then obtain b where b: "p = CHR ''<'' # b @ ''>''" "CHR ''<'' \<notin> set b" "CHR ''>'' \<notin> set b"
      by (auto simp: TAGS_def)
    from replace_div_at_tag [OF b(3) b(2), of "[CHR 0x0A]" u] show ?thesis
    proof
      assume "replace_all re_div [CHR 0x0A] (CHR ''<'' # b @ CHR ''>'' # u) =
          [CHR 0x0A] @ replace_all re_div [CHR 0x0A] u"
      then show ?thesis by (intro exI [of _ "[[CHR 0x0A]]"]) (simp add: b(1) CHS_def)
    next
      assume "replace_all re_div [CHR 0x0A] (CHR ''<'' # b @ CHR ''>'' # u) =
          CHR ''<'' # b @ CHR ''>'' # replace_all re_div [CHR 0x0A] u"
      with True show ?thesis by (intro exI [of _ "[p]"]) (simp add: b(1))
    qed
  next
    case False
    with p obtain e where e: "p = entity_text e" by (auto simp: ENTS_def)
    have "replace_all re_div [CHR 0x0A] (p @ u) = p @ replace_all re_div [CHR 0x0A] u"
      unfolding e by (intro replace_all_skip [where x = "CHR ''<''"])
        (simp_all add: re_div_first entity_text_chars)
    with p show ?thesis by (intro exI [of _ "[p]"]) simp
  qed
qed simp

lemma strip_tag_pieces:
  assumes "set ps \<subseteq> TAGS \<union> ENTS E \<union> CHS {CHR 0x0A}"
  shows "\<exists>qs. set qs \<subseteq> ENTS E \<union> CHS {CHR 0x0A, CHR '' ''} \<and>
           replace_all re_tag '' '' (concat ps) = concat qs"
proof (rule replace_all_pieces [where P = "TAGS \<union> ENTS E \<union> CHS {CHR 0x0A}"
      and nice = "\<lambda>u. True", OF _ _ assms])
  fix p u
  assume p: "p \<in> TAGS \<union> ENTS E \<union> CHS {CHR 0x0A}"
  show "\<exists>qs. set qs \<subseteq> ENTS E \<union> CHS {CHR 0x0A, CHR '' ''} \<and>
      replace_all re_tag '' '' (p @ u) = concat qs @ replace_all re_tag '' '' u"
  proof (cases "p \<in> TAGS")
    case True
    then obtain b where b: "p = CHR ''<'' # b @ ''>''" "b \<noteq> []" "CHR ''>'' \<notin> set b"
      by (auto simp: TAGS_def)
    from replace_tag_at_tag [OF b(2) b(3), of "'' ''" u] show ?thesis
      by (intro exI [of _ "['' '']"]) (simp add: b(1) CHS_def)
  next
    case False
    with p have "CHR ''<'' \<notin> set p" by (auto simp: ENTS_def CHS_def entity_text_chars)
    then have "replace_all re_tag '' '' (p @ u) = p @ replace_all re_tag '' '' u"
      by (intro replace_all_skip [where x = "CHR ''<''"]) (simp_all add: re_tag_first)
    with p False show ?thesis by (intro exI [of _ "[p]"]) (auto simp: CHS_def)
  qed
qed simp

lemma no_anki_play:
  assumes "set qs \<subseteq> ENTS E \<union> CHS {CHR 0x0A, CHR '' ''}"
  shows "replace_all re_anki_play [] (concat qs) = concat qs"
proof -
  from assms have "CHR ''['' \<notin> set (concat qs)"
    by (auto simp: ENTS_def CHS_def entity_text_chars)
  then have "replace_all re_anki_play [] (concat qs @ []) = concat qs @ replace_all re_anki_play [] []"
    by (intro replace_all_skip [where x = "CHR ''[''"]) (simp_all add: re_anki_play_first)
  then show ?thesis by simp
qed

lemma strip_markup_pieces:
  assumes "\<forall>c\<in>set cs. well_formed c"
  shows "\<exists>qs. set qs \<subseteq> ENTS (ents cs) \<union> CHS {CHR 0x0A, CHR '' ''} \<and>
           strip_markup (markup cs) = concat qs"
proof -
  from strip_style_pieces assms obtain ps1 where
    1: "set ps1 \<subseteq> TAGS \<union> ENTS (ents cs)" "replace_all re_style [] (markup cs) = concat ps1"
    by blast
  from strip_div_pieces [OF 1(1)] obtain ps2 where
    2: "set ps2 \<subseteq> TAGS \<union> ENTS (ents cs) \<union> CHS {CHR 0x0A}"
      "replace_all re_div [CHR 0x0A] (concat ps1) = concat ps2"
    by blast
  from strip_tag_pieces [OF 2(1)] obtain ps3 where
    3: "set ps3 \<subseteq> ENTS (ents cs) \<union> CHS {CHR 0x0A, CHR '' ''}"
      "replace_all re_tag '' '' (concat ps2) = concat ps3"
    by blast
  from 1(2) 2(2) 3(2) no_anki_play [OF 3(1)] have "strip_markup (markup cs) = concat ps3"
    by (simp add: strip_markup_def)
  with 3(1) show ?thesis by blast
qed

subsection \<open>Entities\<close>

lemma replace_lit_hit:
  "replace_all (re_lit (entity_text e)) r (entity_text e @ u) =
     r @ replace_all (re_lit (entity_text e)) r u"
  by (intro replace_all_hit) (simp_all add: entity_text_chars re_lit_def startsWith_def)

lemma re_lit_other: "e' \<noteq> e \<Longrightarrow> re_lit (entity_text e) (entity_text e' @ u) = None"
  by (cases e; cases e') (simp_all add: re_lit_def startsWith_def)

lemma replace_lit_miss:
  assumes "e' \<noteq> e"
  shows "replace_all (re_lit (entity_text e)) r (entity_text e' @ u) =
     entity_text e' @ replace_all (re_lit (entity_text e)) r u"
proof -
  obtain t where t: "entity_text e' = CHR ''&'' # t" "CHR ''&'' \<notin> set t"
    by (cases e') simp_all
  have "replace_all (re_lit (entity_text e)) r (t @ u) = t @ replace_all (re_lit (entity_text e)) r u"
    using t(2) by (intro replace_all_skip [where x = "CHR ''&''"]) (simp_all add: re_lit_first)
  with re_lit_other [OF assms, of u] show ?thesis by (simp add: t(1))
qed

lemma replace_lit_char:
  assumes "c \<in> SAFE" "u = [] \<or> hd u \<in> SAFE"
  shows "replace_all (re_lit (entity_text e)) r (c # u) =
     c # replace_all (re_lit (entity_text e)) r u"
proof -
  have "re_lit (entity_text e) (c # u) = None"
  proof (cases u)
    case Nil
    then show ?thesis by (cases e) (simp_all add: re_lit_def startsWith_def)
  next
    case (Cons d u')
    with assms(2) have "d \<in> SAFE" by simp
    then show ?thesis
      by (cases e) (auto simp: Cons re_lit_def startsWith_def SAFE_def)
  qed
  then show ?thesis by simp
qed

lemma pieces_head:
  assumes "B \<subseteq> SAFE" "set ps \<subseteq> ENTS E \<union> CHS B"
  shows "concat ps = [] \<or> hd (concat ps) \<in> SAFE"
proof (cases ps)
  case Nil
  then show ?thesis by simp
next
  case (Cons p ps')
  with assms(2) have "p \<in> ENTS E \<union> CHS B" by simp
  then have "p \<noteq> [] \<and> hd p \<in> SAFE"
    using assms(1) by (auto simp: ENTS_def CHS_def entity_text_chars SAFE_def)
  then show ?thesis by (simp add: Cons)
qed

lemma decode_pieces:
  assumes "B \<subseteq> SAFE" "decoded ` E \<subseteq> B" "set ps \<subseteq> ENTS E \<union> CHS B"
  shows "\<exists>qs. set qs \<subseteq> ENTS (E - {e}) \<union> CHS B \<and>
           replace_all (re_lit (entity_text e)) [decoded e] (concat ps) = concat qs"
proof (rule replace_all_pieces [where P = "ENTS E \<union> CHS B"
      and nice = "\<lambda>u. u = [] \<or> hd u \<in> SAFE", OF _ _ assms(3)])
  fix p u
  assume p: "p \<in> ENTS E \<union> CHS B" and u: "u = [] \<or> hd u \<in> SAFE"
  let ?rep = "replace_all (re_lit (entity_text e)) [decoded e]"
  show "\<exists>qs. set qs \<subseteq> ENTS (E - {e}) \<union> CHS B \<and> ?rep (p @ u) = concat qs @ ?rep u"
  proof (cases "p \<in> ENTS E")
    case True
    then obtain e' where e': "e' \<in> E" "p = entity_text e'" by (auto simp: ENTS_def)
    show ?thesis
    proof (cases "e' = e")
      case True
      with e' assms(2) have "[decoded e] \<in> CHS B" by (auto simp: CHS_def)
      with replace_lit_hit [of e "[decoded e]" u] True e'(2) show ?thesis
        by (intro exI [of _ "[[decoded e]]"]) simp
    next
      case False
      with e' have "p \<in> ENTS (E - {e})" by (auto simp: ENTS_def)
      with replace_lit_miss [OF False, of "[decoded e]" u] e'(2) show ?thesis
        by (intro exI [of _ "[p]"]) simp
    qed
  next
    case False
    with p obtain c where c: "c \<in> B" "p = [c]" by (auto simp: CHS_def)
    with assms(1) have "c \<in> SAFE" by auto
    from replace_lit_char [OF this u, of e "[decoded e]"] c show ?thesis
      by (intro exI [of _ "[p]"]) (simp add: CHS_def)
  qed
next
  fix ps
  assume "set ps \<subseteq> ENTS E \<union> CHS B"
  with assms(1) show "concat ps = [] \<or> hd (concat ps) \<in> SAFE" by (rule pieces_head)
qed

lemma decoded_SAFE: "decoded e \<in> SAFE"
  by (cases e) (simp_all add: SAFE_def)

lemma decode_entities_pieces:
  assumes "set ps \<subseteq> ENTS E \<union> CHS {CHR 0x0A, CHR '' ''}"
  shows "set (decode_entities (concat ps)) \<subseteq> {CHR 0x0A, CHR '' ''} \<union> decoded ` E"
proof -
  let ?B = "{CHR 0x0A, CHR '' ''} \<union> decoded ` E"
  have B: "?B \<subseteq> SAFE" using decoded_SAFE by (auto simp: SAFE_def)
  have 0: "set ps \<subseteq> ENTS E \<union> CHS ?B" using assms by (auto simp: CHS_def)
  from decode_pieces [OF B _ 0, of Nbsp] obtain ps1 where
    1: "set ps1 \<subseteq> ENTS (E - {Nbsp}) \<union> CHS ?B"
      "replace_all (re_lit ''&nbsp;'') '' '' (concat ps) = concat ps1"
    by auto
  from decode_pieces [OF B _ 1(1), of Amp] obtain ps2 where
    2: "set ps2 \<subseteq> ENTS (E - {Nbsp} - {Amp}) \<union> CHS ?B"
      "replace_all (re_lit ''&amp;'') ''&'' (concat ps1) = concat ps2"
    by auto
  from decode_pieces [OF B _ 2(1), of Lt] obtain ps3 where
    3: "set ps3 \<subseteq> ENTS (E - {Nbsp} - {Amp} - {Lt}) \<union> CHS ?B"
      "replace_all (re_lit ''&lt;'') ''<'' (concat ps2) = concat ps3"
    by auto
  from decode_pieces [OF B _ 3(1), of Gt] obtain ps4 where
    4: "set ps4 \<subseteq> ENTS (E - {Nbsp} - {Amp} - {Lt} - {Gt}) \<union> CHS ?B"
      "replace_all (re_lit ''&gt;'') ''>'' (concat ps3) = concat ps4"
    by auto
  from decode_pieces [OF B _ 4(1), of Quot] obtain ps5 where
    5: "set ps5 \<subseteq> ENTS (E - {Nbsp} - {Amp} - {Lt} - {Gt} - {Quot}) \<union> CHS ?B"
      "replace_all (re_lit ''&quot;'') [CHR 0x22] (concat ps4) = concat ps5"
    by auto
  have "E - {Nbsp} - {Amp} - {Lt} - {Gt} - {Quot} = {}"
  proof -
    have "e \<in> {Nbsp, Amp, Lt, Gt, Quot}" for e by (cases e) simp_all
    then show ?thesis by blast
  qed
  with 5(1) have "set ps5 \<subseteq> CHS ?B" by (simp add: ENTS_def)
  then have "set (concat ps5) \<subseteq> ?B" by (auto simp: CHS_def)
  moreover have "decode_entities (concat ps) = concat ps5"
    by (simp add: decode_entities_def 1(2) 2(2) 3(2) 4(2) 5(2))
  ultimately show ?thesis by simp
qed

subsection \<open>Lines\<close>

lemma split_nl_chars: "l \<in> set (split_nl s) \<Longrightarrow> set l \<subseteq> set s"
proof (induction s arbitrary: l)
  case Nil
  then show ?case by simp
next
  case (Cons a s)
  show ?case
  proof (cases "a = CHR 0x0A")
    case True
    with Cons show ?thesis by auto
  next
    case False
    obtain l0 ls where sp: "split_nl s = l0 # ls"
      using split_nl_not_Nil [of s] by (cases "split_nl s") auto
    with False Cons.prems have "l = a # l0 \<or> l \<in> set ls" by simp
    with Cons.IH [of l0] Cons.IH [of l] sp show ?thesis by auto
  qed
qed

lemma set_join: "set (join sep ls) \<subseteq> set sep \<union> \<Union> (set ` set ls)"
  by (induction sep ls rule: join.induct) auto

lemma clean_lines_chars: "set (clean_lines s) \<subseteq> insert (CHR 0x0A) (set s)"
proof
  fix c
  assume "c \<in> set (clean_lines s)"
  with set_join [of "[CHR 0x0A]" "filter (\<lambda>line. length line > 0) (map trim (split_nl s))"]
  have "c = CHR 0x0A \<or> (\<exists>l\<in>set (split_nl s). c \<in> set (trim l))"
    by (auto simp: clean_lines_def)
  then show "c \<in> insert (CHR 0x0A) (set s)"
    using set_trim split_nl_chars by fastforce
qed

lemma cleanWithRegex_chars:
  assumes "\<forall>c\<in>set cs. well_formed c"
  shows "set (cleanWithRegex (markup cs)) \<subseteq> {CHR 0x0A, CHR '' ''} \<union> decoded ` ents cs"
proof -
  from strip_markup_pieces [OF assms] obtain qs where
    "set qs \<subseteq> ENTS (ents cs) \<union> CHS {CHR 0x0A, CHR '' ''}" "strip_markup (markup cs) = concat qs"
    by blast
  with decode_entities_pieces [of qs "ents cs"]
  have "set (decode_entities (strip_markup (markup cs))) \<subseteq> {CHR 0x0A, CHR '' ''} \<union> decoded ` ents cs"
    by simp
  with clean_lines_chars [of "decode_entities (strip_markup (markup cs))"]
  show ?thesis by (auto simp: cleanWithRegex_def)
qed

text \<open>
  Claim C5, as the specification states it: the output for an input built only from tags,
  style blocks and the five entities has no \<^verbatim>\<open><\<close>.  It fails for the entity \<^verbatim>\<open>&lt;\<close>, which
  is decoded to the character \<^verbatim>\<open><\<close> after the tags have been stripped.  It fails as well,
  without any \<^verbatim>\<open>&lt;\<close>, where a tag is not what the tag expression takes for one: a tag with
  \<^verbatim>\<open>>\<close> in an attribute value, a tag with \<^verbatim>\<open><\<close> in its body (the expression matches all six
  characters of \<^verbatim>\<open><<div>\<close>), the empty tag \<^verbatim>\<open><>\<close>, and a style block that has a closing tag
  before its last one.
\<close>

theorem cleanWithRegex_markup_counterexample:
  \<open>list_all well_formed [Entity Lt] \<and> markup [Entity Lt] = ''&lt;'' \<and>
   cleanWithRegex (markup [Entity Lt]) = ''<'' \<and>
   markup [Tag ''img alt=">" title="<>"''] = ''<img alt=">" title="<>">'' \<and>
   cleanWithRegex (markup [Tag ''img alt=">" title="<>"'']) = ''" title="<>">'' \<and>
   re_tag ''<<div>'' = Some 6 \<and>
   cleanWithRegex (markup [Tag ''<div'']) = ''<'' \<and>
   cleanWithRegex (markup [Tag ''a<style'', Tag ''b'', Tag ''/style'']) = ''<a'' \<and>
   cleanWithRegex (markup [Tag []]) = ''<>'' \<and>
   markup [StyleBlock ''<style'' [] ''</style><>'' ''</style>''] = ''<style></style><></style>'' \<and>
   cleanWithRegex (markup [StyleBlock ''<style'' [] ''</style><>'' ''</style>'']) = ''<>''\<close>
  by (simp add: markup_def eval_defs)

text \<open>
  Claim C5, amended.  For every input that is a concatenation of
  \<^item> tags \<^verbatim>\<open><body>\<close> whose body is not empty and contains neither \<^verbatim>\<open><\<close> nor \<^verbatim>\<open>>\<close>,
  \<^item> style blocks, opened by \<^verbatim>\<open><style\<close> and closed by \<^verbatim>\<open></style>\<close> in any letter case, with no
    closing tag \<^verbatim>\<open></style>\<close> before the final one, and
  \<^item> the five entities \<^verbatim>\<open>&nbsp;\<close>, \<^verbatim>\<open>&amp;\<close>, \<^verbatim>\<open>&lt;\<close>, \<^verbatim>\<open>&gt;\<close>, \<^verbatim>\<open>&quot;\<close>,

  the output contains none of the five entity texts, and it contains no \<^verbatim>\<open><\<close> unless the
  input has the entity \<^verbatim>\<open>&lt;\<close>: every character of the output is a newline, a space, or
  the character of an entity of the input.
\<close>

theorem cleanWithRegex_markup_only:
  assumes "\<forall>c\<in>set cs. well_formed c"
  shows "(\<forall>e. \<not> sublist (entity_text e) (cleanWithRegex (markup cs))) \<and>
         (Entity Lt \<notin> set cs \<longrightarrow> CHR ''<'' \<notin> set (cleanWithRegex (markup cs))) \<and>
         set (cleanWithRegex (markup cs)) \<subseteq> {CHR 0x0A, CHR '' ''} \<union> decoded ` ents cs"
proof (intro conjI allI impI)
  note chars = cleanWithRegex_chars [OF assms]
  show "set (cleanWithRegex (markup cs)) \<subseteq> {CHR 0x0A, CHR '' ''} \<union> decoded ` ents cs"
    by (rule chars)
  have semi: "CHR '';'' \<notin> set (cleanWithRegex (markup cs))"
  proof
    assume "CHR '';'' \<in> set (cleanWithRegex (markup cs))"
    with chars obtain e where "decoded e = CHR '';''" by auto
    then show False by (cases e) simp_all
  qed
  show "\<not> sublist (entity_text e) (cleanWithRegex (markup cs))" for e
  proof
    assume "sublist (entity_text e) (cleanWithRegex (markup cs))"
    then have "set (entity_text e) \<subseteq> set (cleanWithRegex (markup cs))"
      by (rule set_mono_sublist)
    moreover have "CHR '';'' \<in> set (entity_text e)" by (cases e) simp_all
    ultimately show False using semi by auto
  qed
  show "CHR ''<'' \<notin> set (cleanWithRegex (markup cs))" if "Entity Lt \<notin> set cs"
  proof
    assume "CHR ''<'' \<in> set (cleanWithRegex (markup cs))"
    with chars obtain e where "e \<in> ents cs" "decoded e = CHR ''<''" by auto
    then have "Entity Lt \<in> set cs" by (cases e) (simp_all add: ents_def)
    with that show False by simp
  qed
qed

theorem cleanWithRegex_markup_only_witness:
  "list_all well_formed [Tag ''div class=a'',
       StyleBlock ''<STYLE'' '' type=x'' ''.a > b { } p < q'' ''</Style>'', Tag ''b'',
       Entity Amp, Entity Gt, Tag ''/b'', Entity Nbsp, Tag ''br'', Entity Quot, Tag ''/div''] \<and>
   markup [Tag ''div class=a'',
       StyleBlock ''<STYLE'' '' type=x'' ''.a > b { } p < q'' ''</Style>'', Tag ''b'',
       Entity Amp, Entity Gt, Tag ''/b'', Entity Nbsp, Tag ''br'', Entity Quot, Tag ''/div''] =
     ''<div class=a><STYLE type=x>.a > b { } p < q</Style><b>&amp;&gt;</b>&nbsp;<br>&quot;</div>'' \<and>
   cleanWithRegex (markup [Tag ''div class=a'',
       StyleBlock ''<STYLE'' '' type=x'' ''.a > b { } p < q'' ''</Style>'', Tag ''b'',
       Entity Amp, Entity Gt, Tag ''/b'', Entity Nbsp, Tag ''br'', Entity Quot, Tag ''/div'']) =
     [CHR ''&'', CHR ''>'', CHR '' '', CHR '' '', CHR '' '', CHR 0x22] \<and>
   CHR ''<'' \<notin> set (cleanWithRegex (markup [Tag ''div class=a'',
       StyleBlock ''<STYLE'' '' type=x'' ''.a > b { } p < q'' ''</Style>'', Tag ''b'',
       Entity Amp, Entity Gt, Tag ''/b'', Entity Nbsp, Tag ''br'', Entity Quot, Tag ''/div'']))"
proof -
  let ?cs = "[Tag ''div class=a'',
       StyleBlock ''<STYLE'' '' type=x'' ''.a > b { } p < q'' ''</Style>'', Tag ''b'',
       Entity Amp, Entity Gt, Tag ''/b'', Entity Nbsp, Tag ''br'', Entity Quot, Tag ''/div'']"
  have w: "\<forall>c\<in>set ?cs. well_formed c" by (simp add: style_open_def style_close_def)
  have m: "markup ?cs =
      ''<div class=a><STYLE type=x>.a > b { } p < q</Style><b>&amp;&gt;</b>&nbsp;<br>&quot;</div>''"
    by (simp add: markup_def)
  have v: "cleanWithRegex (markup ?cs) = [CHR ''&'', CHR ''>'', CHR '' '', CHR '' '', CHR '' '', CHR 0x22]"
    unfolding m by (simp add: eval_defs)
  have "Entity Lt \<notin> set ?cs" by simp
  with cleanWithRegex_markup_only [OF w] have "CHR ''<'' \<notin> set (cleanWithRegex (markup ?cs))"
    by blast
  with w m v show ?thesis by (simp add: list_all_iff)
qed

end
